theory Spec2Isabelle
  imports Main "HOL-Library.Word"
begin

unbundle bit_operations_syntax

section \<open>Attributed string buffers of \<^verbatim>\<open>src/curses/chstr.c\<close>\<close>

subsection \<open>Data\<close>

type_synonym byte = "8 word"
type_synonym attr_t = "32 word"
type_synonym wchar_t = "32 word"

text \<open>
  A cell is curses' \<^verbatim>\<open>cchar_t\<close>. The source writes its \<^verbatim>\<open>attr\<close>, \<^verbatim>\<open>chars[0]\<close> and
  \<^verbatim>\<open>chars[1]\<close> and reads the first two; the other elements of \<^verbatim>\<open>chars\<close> are never touched.
  The types are those of ncursesw on a 64-bit Linux: \<^verbatim>\<open>attr_t\<close> is an unsigned 32-bit integer
  and \<^verbatim>\<open>wchar_t\<close> a 32-bit one; an \<^verbatim>\<open>int\<close> argument is stored in either with its 32 bits.
\<close>

record cchar_t =
  attr :: attr_t
  chars0 :: wchar_t
  chars1 :: wchar_t

text \<open>
  \<^verbatim>\<open>struct chstr\<close> (lines 24-28): \<^verbatim>\<open>len\<close> is the element count, \<^verbatim>\<open>size\<close> the number of cells
  the block was allocated for (here \<open>size_cs\<close>, as \<open>size\<close> is a constant of HOL), and
  \<^verbatim>\<open>str\<close> the cells of the block, one list element for each cell that was allocated. Both
  counters are \<^verbatim>\<open>unsigned int\<close>: a \<^verbatim>\<open>size_t\<close> stored in one is taken modulo \<open>2 ^ 32\<close>.
\<close>

record chstr =
  len :: nat
  size_cs :: nat
  str :: "cchar_t list"

text \<open>
  What the file takes from its surroundings: the constants of \<^verbatim>\<open>curses.h\<close>, and the C
  allocator. \<open>grants\<close> says whether a request is satisfied (a NULL answer otherwise),
  \<open>junk\<close> is the indeterminate content of a cell that was allocated and not yet written.
\<close>

datatype request =
    Cells nat  \<comment> \<open>\<^verbatim>\<open>malloc\<close> or \<^verbatim>\<open>realloc\<close> of \<^verbatim>\<open>CHSTR_SIZE(n)\<close> bytes\<close>
  | Codes nat  \<comment> \<open>\<^verbatim>\<open>malloc (sizeof(int) * n)\<close>\<close>

record env =
  A_NORMAL :: attr_t
  A_ATTRIBUTES :: attr_t
  A_COLOR :: attr_t
  grants :: "request \<Rightarrow> bool"
  junk :: "nat \<Rightarrow> cchar_t"

text \<open>
  The errors the Lua binding raises, under the names of the specification:
  \<^item> \<open>InvalidArgument\<close>: "bad len", "rep should > 0", "empty string";
  \<^item> \<open>InvalidEncoding\<close>: "bad utf8 byte sequence", and the NULL of \<^verbatim>\<open>chstr_new\<close> at line 64;
  \<^item> \<open>OutOfRange\<close>: "bad index", "bad rep", "index range: [1 .. cs:len()]";
  \<^item> \<open>AllocationFailure\<close>: "malloc failed", "realloc failed", "[chstr:dup] malloc failed",
    and the NULL of the two constructors after a failed \<^verbatim>\<open>malloc\<close>;
  \<^item> \<open>CreateFailed\<close>: "create wstr failed!";
  \<^item> \<open>BadArgument\<close>: "bad argument".
\<close>

datatype error =
    InvalidArgument
  | InvalidEncoding
  | OutOfRange
  | AllocationFailure
  | CreateFailed
  | BadArgument

text \<open>
  Where a call leaves the defined behaviour of C, the model says which way:
  \<^item> \<open>InvalidFree\<close>: \<^verbatim>\<open>free\<close> of a pointer that no allocation returned;
  \<^item> \<open>SignedOverflow\<close>: an \<^verbatim>\<open>int\<close> expression whose value is above \<^verbatim>\<open>INT_MAX\<close>;
  \<^item> \<open>OverlongText\<close>: a text of more than \<^verbatim>\<open>INT_MAX\<close> bytes given to \<^verbatim>\<open>set_str\<close>, which
    counts the codepoints in an \<^verbatim>\<open>int\<close> (line 119); the model of \<^verbatim>\<open>set_str\<close> does not follow
    such a text any further;
  \<^item> \<open>OutOfBounds\<close>: an access to a cell outside the block;
  \<^item> \<open>DeadBlock\<close>: an access through a pointer to a block that is not live.
\<close>

datatype fault = InvalidFree | SignedOverflow | OverlongText | OutOfBounds | DeadBlock

datatype 'a ret =
    Done 'a         \<comment> \<open>the call returns this value\<close>
  | Raised error    \<comment> \<open>the call fails with this error and returns nothing\<close>
  | Fault fault

text \<open>
  The outcome of a call that works on a buffer in place: the buffer as the call leaves it,
  after a normal return (\<open>Updated\<close>) or after an error (\<open>Failed\<close>).
\<close>

datatype upd =
    Updated chstr
  | Failed error chstr
  | Faulted fault

definition INT_MAX :: int where
  "INT_MAX = 2147483647"

subsection \<open>Construction\<close>

definition blank :: "env \<Rightarrow> cchar_t" where
  "blank E = \<lparr>attr = A_NORMAL E, chars0 = 0x20, chars1 = 0\<rparr>"

text \<open>
  \<^verbatim>\<open>chstr_new_by_size\<close> (lines 33-46). Its one call (line 323) passes a positive \<^verbatim>\<open>int\<close>.
  The loop of lines 40-44 writes cell \<open>i\<close> for \<open>i = 0, ..., len - 1\<close>.
\<close>

function fill_blank :: "env \<Rightarrow> nat \<Rightarrow> nat \<Rightarrow> cchar_t list \<Rightarrow> cchar_t list" where
  "fill_blank E i n cells =
     (if i < n then fill_blank E (Suc i) n (cells[i := blank E]) else cells)"
  by pat_completeness auto
termination
  by (relation "measure (\<lambda>(E, i, n, cells). n - i)") auto

declare fill_blank.simps [simp del]

definition malloc_cells :: "env \<Rightarrow> nat \<Rightarrow> cchar_t list" where
  "malloc_cells E n = map (junk E) [0..<n]"

definition chstr_new_by_size :: "env \<Rightarrow> nat \<Rightarrow> chstr ret" where
  "chstr_new_by_size E n =
     (if n < 1 then Raised InvalidArgument
      else if \<not> grants E (Cells n) then Raised AllocationFailure
      else Done \<lparr>len = n, size_cs = n, str = fill_blank E 0 n (malloc_cells E n)\<rparr>)"

subsection \<open>Decoding\<close>

text \<open>
  Modelled from the spec: \<^verbatim>\<open>utf8_decode\<close> is defined in \<^verbatim>\<open>_helpers.c\<close>, which is not among
  the sources. The specification (section 2) describes it as the primitive that decodes one
  codepoint from a byte slice and returns the codepoint and the number of bytes consumed, or
  fails; section 4.1 asks for UTF-8 scalar values. The model returns the codepoint and the
  bytes after it, \<open>None\<close> for the NULL of a malformed sequence. It follows the UTF-8 of
  the Unicode standard: one to four bytes, continuation bytes \<^verbatim>\<open>10xxxxxx\<close>, no overlong form,
  no surrogate, nothing above U+10FFFF.
\<close>

definition cont :: "byte \<Rightarrow> bool" where
  "cont b = (0x80 \<le> unat b \<and> unat b < 0xC0)"

definition low6 :: "byte \<Rightarrow> nat" where
  "low6 b = unat b - 0x80"

fun utf8_decode :: "byte list \<Rightarrow> (nat \<times> byte list) option" where
  "utf8_decode [] = None"
| "utf8_decode (b0 # bs) =
     (if unat b0 < 0x80 then Some (unat b0, bs)
      else if unat b0 < 0xC0 then None
      else if unat b0 < 0xE0 then
        (case bs of
           b1 # r \<Rightarrow>
             (let c = (unat b0 - 0xC0) * 64 + low6 b1
              in if cont b1 \<and> 0x80 \<le> c then Some (c, r) else None)
         | _ \<Rightarrow> None)
      else if unat b0 < 0xF0 then
        (case bs of
           b1 # b2 # r \<Rightarrow>
             (let c = ((unat b0 - 0xE0) * 64 + low6 b1) * 64 + low6 b2
              in if cont b1 \<and> cont b2 \<and> 0x800 \<le> c \<and> \<not> (0xD800 \<le> c \<and> c \<le> 0xDFFF)
                 then Some (c, r) else None)
         | _ \<Rightarrow> None)
      else if unat b0 < 0xF8 then
        (case bs of
           b1 # b2 # b3 # r \<Rightarrow>
             (let c = (((unat b0 - 0xF0) * 64 + low6 b1) * 64 + low6 b2) * 64 + low6 b3
              in if cont b1 \<and> cont b2 \<and> cont b3 \<and> 0x10000 \<le> c \<and> c \<le> 0x10FFFF
                 then Some (c, r) else None)
         | _ \<Rightarrow> None)
      else None)"

text \<open>
  The cell that lines 66-68 and 156-158 write: attribute, codepoint, terminator.
\<close>

definition cell :: "attr_t \<Rightarrow> nat \<Rightarrow> cchar_t" where
  "cell a code = \<lparr>attr = a, chars0 = of_nat code, chars1 = 0\<rparr>"

text \<open>
  The loop of \<^verbatim>\<open>chstr_new\<close> (lines 57-69): \<open>s\<close> is the text from \<^verbatim>\<open>str\<close> to \<^verbatim>\<open>str_end\<close>,
  \<open>i\<close> the counter, an \<^verbatim>\<open>int\<close>: the step \<^verbatim>\<open>i++\<close> after the cell \<^verbatim>\<open>INT_MAX\<close> overflows.
  \<open>Raised InvalidEncoding\<close> is the exit of line 64.
\<close>

function new_loop :: "attr_t \<Rightarrow> byte list \<Rightarrow> nat \<Rightarrow> cchar_t list \<Rightarrow> (nat \<times> cchar_t list) ret" where
  "new_loop a s i cells =
     (if s = [] then Done (i, cells)
      else case utf8_decode s of
             None \<Rightarrow> Raised InvalidEncoding
           | Some (code, s') \<Rightarrow>
               if INT_MAX \<le> int i then Fault SignedOverflow
               else new_loop a s' (Suc i) (cells[i := cell a code]))"
  by pat_completeness auto
termination
  by (relation "measure (\<lambda>(a, s, i, cells). length s)")
    (auto simp: Let_def neq_Nil_conv split: if_splits list.splits)

declare new_loop.simps [simp del]

text \<open>
  \<^verbatim>\<open>chstr_new\<close> (lines 48-74). The block has one cell for each byte of the text
  (\<^verbatim>\<open>malloc(CHSTR_SIZE(len))\<close>, computed in \<^verbatim>\<open>size_t\<close>); \<^verbatim>\<open>cs->size = len\<close> (line 55) stores
  the \<^verbatim>\<open>size_t\<close> byte length in an \<^verbatim>\<open>unsigned int\<close>; \<^verbatim>\<open>cs->len\<close> is the number of codepoints.
  The function answers NULL on three paths, which the model tells apart: an empty text
  (line 50), a failed allocation (line 53), a malformed text (line 64).
\<close>

definition chstr_new :: "env \<Rightarrow> byte list \<Rightarrow> attr_t \<Rightarrow> chstr ret" where
  "chstr_new E s a =
     (if length s < 1 then Raised InvalidArgument
      else if \<not> grants E (Cells (length s)) then Raised AllocationFailure
      else case new_loop a s 0 (malloc_cells E (length s)) of
             Done (i, cells) \<Rightarrow> Done \<lparr>len = i, size_cs = length s mod 2 ^ 32, str = cells\<rparr>
           | Raised e \<Rightarrow> Raised e
           | Fault x \<Rightarrow> Fault x)"

text \<open>
  \<^verbatim>\<open>create_chstr\<close> (lines 310-334), the constructor of the binding. The argument is a Lua
  string (with an optional attribute after it), a number (converted to \<^verbatim>\<open>int\<close> by
  \<^verbatim>\<open>checkint\<close>), or anything else. A NULL from either function becomes "create wstr failed!".
\<close>

datatype lua_value = LString "byte list" | LNumber int | LOther

definition optint :: "'a option \<Rightarrow> 'a \<Rightarrow> 'a" where
  "optint a d = (case a of None \<Rightarrow> d | Some x \<Rightarrow> x)"

definition null_check :: "chstr ret \<Rightarrow> chstr ret" where
  "null_check r = (case r of Raised e \<Rightarrow> Raised CreateFailed | _ \<Rightarrow> r)"

definition create_chstr :: "env \<Rightarrow> lua_value \<Rightarrow> attr_t option \<Rightarrow> chstr ret" where
  "create_chstr E v a =
     (case v of
        LString s \<Rightarrow> null_check (chstr_new E s (optint a (A_NORMAL E)))
      | LNumber n \<Rightarrow>
          if \<not> 0 < n then Raised InvalidArgument
          else null_check (chstr_new_by_size E (nat n))
      | LOther \<Rightarrow> Raised BadArgument)"

subsection \<open>Reading\<close>

text \<open>
  The conversion \<^verbatim>\<open>(int)cs->len\<close> of lines 106, 187, 193 and 227.
\<close>

definition to_int :: "nat \<Rightarrow> int" where
  "to_int n = (if int n \<le> INT_MAX then int n else int n - 2 ^ 32)"

text \<open>
  \<^verbatim>\<open>Cget\<close> (lines 221-235): the codepoint of the cell, its attribute under the mask
  \<^verbatim>\<open>A_ATTRIBUTES\<close> and under the mask \<^verbatim>\<open>A_COLOR\<close>.
\<close>

definition Cget :: "env \<Rightarrow> chstr \<Rightarrow> int \<Rightarrow> (wchar_t \<times> attr_t \<times> attr_t) ret" where
  "Cget E cs offset =
     (if \<not> (offset > 0 \<and> offset \<le> to_int (len cs)) then Raised OutOfRange
      else if \<not> nat (offset - 1) < length (str cs) then Fault OutOfBounds
      else let ch = str cs ! nat (offset - 1)
           in Done (chars0 ch, attr ch AND A_ATTRIBUTES E, attr ch AND A_COLOR E))"

text \<open>\<^verbatim>\<open>Clen\<close> (lines 248-253) and \<^verbatim>\<open>Csize\<close> (lines 266-271).\<close>

definition Clen :: "chstr \<Rightarrow> nat" where
  "Clen cs = len cs"

definition Csize :: "chstr \<Rightarrow> nat" where
  "Csize cs = size_cs cs"

subsection \<open>Writing within the length: \<^verbatim>\<open>set_ch\<close>\<close>

text \<open>
  The loop of lines 197-203, \<^verbatim>\<open>while (rep--)\<close>: the attribute is written only when the
  caller gave one (\<^verbatim>\<open>set_attr\<close>), the codepoint and the terminator always.
\<close>

definition put_ch :: "attr_t option \<Rightarrow> wchar_t \<Rightarrow> cchar_t \<Rightarrow> cchar_t" where
  "put_ch a ch c =
     (case a of None \<Rightarrow> c | Some x \<Rightarrow> c\<lparr>attr := x\<rparr>)\<lparr>chars0 := ch, chars1 := 0\<rparr>"

fun set_ch_loop :: "nat \<Rightarrow> attr_t option \<Rightarrow> wchar_t \<Rightarrow> nat \<Rightarrow> cchar_t list \<Rightarrow> cchar_t list" where
  "set_ch_loop 0 a ch offset cells = cells"
| "set_ch_loop (Suc rep) a ch offset cells =
     set_ch_loop rep a ch (Suc offset) (cells[offset := put_ch a ch (cells ! offset)])"

text \<open>
  \<^verbatim>\<open>Cset_ch\<close> (lines 182-206). \<open>ch\<close> is the codepoint that \<^verbatim>\<open>checkutf8char\<close> returns;
  \<open>a\<close> and \<open>r\<close> are the optional arguments 4 and 5.
\<close>

definition Cset_ch :: "chstr \<Rightarrow> int \<Rightarrow> wchar_t \<Rightarrow> attr_t option \<Rightarrow> int option \<Rightarrow> upd" where
  "Cset_ch cs offset ch a r =
     (if \<not> (0 < offset \<and> offset \<le> to_int (len cs)) then Failed OutOfRange cs
      else let rep = optint r 1
           in if \<not> (0 < rep \<and> rep \<le> to_int (len cs) - offset + 1) then Failed OutOfRange cs
              else if length (str cs) < nat (offset - 1) + nat rep then Faulted OutOfBounds
              else Updated (cs\<lparr>str := set_ch_loop (nat rep) a ch (nat (offset - 1)) (str cs)\<rparr>))"

subsection \<open>Writing with growth: \<^verbatim>\<open>set_str\<close>\<close>

text \<open>
  The decoding loop of lines 119-126. \<open>codes\<close> is what has been written to \<^verbatim>\<open>code_array\<close>,
  so \<^verbatim>\<open>utf8_str_len\<close> is its length. Each call of \<^verbatim>\<open>utf8_decode\<close> advances the pointer
  \<^verbatim>\<open>code_array\<close> by one element (\<^verbatim>\<open>code_array++\<close>) before the result is tested. \<open>Inl k\<close> is
  the exit of line 122, with \<^verbatim>\<open>code_array\<close> standing \<open>k\<close> elements after the start of its
  block; \<open>Inr codes\<close> is the normal end of the loop.
\<close>

function decode_loop :: "byte list \<Rightarrow> nat list \<Rightarrow> nat + nat list" where
  "decode_loop s codes =
     (if s = [] then Inr codes
      else case utf8_decode s of
             None \<Rightarrow> Inl (Suc (length codes))
           | Some (code, s') \<Rightarrow> decode_loop s' (codes @ [code]))"
  by pat_completeness auto
termination
  by (relation "measure (\<lambda>(s, codes). length s)")
    (auto simp: Let_def neq_Nil_conv split: if_splits list.splits)

declare decode_loop.simps [simp del]

text \<open>
  \<^verbatim>\<open>free (p)\<close> is defined for the pointer an allocation returned, that is at distance 0
  from the start of its block.
\<close>

definition free_defined :: "nat \<Rightarrow> bool" where
  "free_defined k = (k = 0)"

text \<open>
  The two loops of lines 153-161: the inner one writes the codes from position \<open>p\<close> on,
  the outer one repeats it \<open>rep\<close> times, \<open>p\<close> moving on.
\<close>

primrec write_codes :: "attr_t \<Rightarrow> nat list \<Rightarrow> nat \<Rightarrow> cchar_t list \<Rightarrow> cchar_t list" where
  "write_codes a [] p cells = cells"
| "write_codes a (c # codes) p cells = write_codes a codes (Suc p) (cells[p := cell a c])"

primrec write_rep :: "nat \<Rightarrow> attr_t \<Rightarrow> nat list \<Rightarrow> nat \<Rightarrow> cchar_t list \<Rightarrow> cchar_t list" where
  "write_rep 0 a codes p cells = cells"
| "write_rep (Suc n) a codes p cells =
     write_rep n a codes (p + length codes) (write_codes a codes p cells)"

text \<open>
  \<^verbatim>\<open>realloc\<close> to \<open>n\<close> cells, \<open>n\<close> above the present size (lines 137-145): the old cells
  stay, the new ones are indeterminate.
\<close>

definition realloc_cells :: "env \<Rightarrow> cchar_t list \<Rightarrow> nat \<Rightarrow> cchar_t list" where
  "realloc_cells E cells n = cells @ map (junk E) [length cells..<n]"

definition grow :: "env \<Rightarrow> chstr \<Rightarrow> nat \<Rightarrow> chstr" where
  "grow E cs new_size =
     (if new_size > size_cs cs
      then cs\<lparr>size_cs := new_size, str := realloc_cells E (str cs) new_size\<rparr>
      else cs)"

definition advance :: "chstr \<Rightarrow> nat \<Rightarrow> chstr" where
  "advance cs new_size = (if new_size > len cs then cs\<lparr>len := new_size\<rparr> else cs)"

text \<open>
  \<^verbatim>\<open>Cset_str\<close> (lines 101-165). \<open>o1\<close> is the 1-based offset of the caller, \<open>a\<close> and \<open>r\<close>
  are the optional arguments 4 and 5. The checks come in the order of the source: index,
  repeat count, allocation of \<^verbatim>\<open>code_array\<close>, decoding, empty text, growth. On the exit of
  line 122 the source frees \<^verbatim>\<open>code_array\<close> as it stands (line 123) and then raises
  "bad utf8 byte sequence".
\<close>

definition Cset_str ::
  "env \<Rightarrow> chstr \<Rightarrow> int \<Rightarrow> byte list \<Rightarrow> attr_t option \<Rightarrow> int option \<Rightarrow> upd" where
  "Cset_str E cs o1 s a r =
     (if \<not> (0 < o1 \<and> o1 \<le> to_int (len cs)) then Failed OutOfRange cs
      else let offset = o1 - 1; at = optint a (A_NORMAL E); rep = optint r 1
      in if \<not> rep > 0 then Failed InvalidArgument cs
         else if \<not> grants E (Codes (length s)) then Failed AllocationFailure cs
         else if INT_MAX < int (length s) then Faulted OverlongText
         else case decode_loop s [] of
                Inl k \<Rightarrow> if free_defined k then Failed InvalidEncoding cs else Faulted InvalidFree
              | Inr codes \<Rightarrow>
                  if length codes < 1 then Failed InvalidArgument cs
                  else if INT_MAX < int (length codes) * rep + offset then Faulted SignedOverflow
                  else let new_size = nat (int (length codes) * rep + offset)
                  in if new_size > size_cs cs \<and> \<not> grants E (Cells new_size)
                     then Failed AllocationFailure cs
                     else let cs' = advance (grow E cs new_size) new_size
                          in if length (str cs') < new_size then Faulted OutOfBounds
                             else Updated (cs'\<lparr>str := write_rep (nat rep) at codes (nat offset) (str cs')\<rparr>))"

text \<open>
  What lines 135-161 leave of the buffer, for the decoded \<open>codes\<close>, the 0-based offset
  \<open>p\<close> and the repeat count \<open>n\<close>, once \<^verbatim>\<open>realloc\<close> has answered: the body of a call
  that returns.
\<close>

definition set_str_result :: "env \<Rightarrow> chstr \<Rightarrow> nat \<Rightarrow> nat list \<Rightarrow> attr_t \<Rightarrow> nat \<Rightarrow> chstr" where
  "set_str_result E cs p codes at n =
     (let new_size = length codes * n + p; cs' = advance (grow E cs new_size) new_size
      in cs'\<lparr>str := write_rep n at codes p (str cs')\<rparr>)"

subsection \<open>Duplication\<close>

text \<open>
  \<^verbatim>\<open>Cdup\<close> (lines 281-298): a block for \<^verbatim>\<open>cs->len\<close> cells, the header and that many cells
  copied by \<^verbatim>\<open>memcpy\<close>, and \<^verbatim>\<open>size\<close> set to \<^verbatim>\<open>cs->len\<close>.
\<close>

definition Cdup :: "env \<Rightarrow> chstr \<Rightarrow> chstr ret" where
  "Cdup E cs =
     (let rlen = len cs
      in if \<not> grants E (Cells rlen) then Raised AllocationFailure
         else if length (str cs) < rlen then Fault OutOfBounds
         else Done \<lparr>len = len cs, size_cs = rlen, str = take rlen (str cs)\<rparr>)"

subsection \<open>Buffers in memory\<close>

text \<open>
  The invariant of section 3 of the specification, with the range of the counters: what
  the construction by size and the construction from a text of at most \<^verbatim>\<open>INT_MAX\<close> bytes
  establish and what every operation keeps (shown below). The last conjunct says that the
  block has \<^verbatim>\<open>size\<close> cells.
\<close>

definition chstr_inv :: "chstr \<Rightarrow> bool" where
  "chstr_inv cs =
     (1 \<le> len cs \<and> len cs \<le> size_cs cs \<and> int (size_cs cs) \<le> INT_MAX
      \<and> length (str cs) = size_cs cs)"

text \<open>
  A Lua userdata of this class holds a pointer to a block (\<^verbatim>\<open>chstr **\<close>). The heap maps
  the address of each live block to its content. An allocation returns the address of a
  block that is not live; \<^verbatim>\<open>realloc\<close> returns the old address or such a one, and the old
  block is dead when the address changed.
\<close>

type_synonym addr = nat
type_synonym heap = "addr \<rightharpoonup> chstr"

text \<open>
  \<^verbatim>\<open>Cdup\<close> on the userdata that points to \<open>p\<close>; \<open>q\<close> is the address \<^verbatim>\<open>malloc\<close> returns
  (line 289). The result is the new heap and the pointer of the new userdata.
\<close>

definition dup_at :: "env \<Rightarrow> heap \<Rightarrow> addr \<Rightarrow> addr \<Rightarrow> (heap \<times> addr) ret" where
  "dup_at E h p q =
     (case h p of
        None \<Rightarrow> Fault DeadBlock
      | Some cs \<Rightarrow>
          (case Cdup E cs of
             Done d \<Rightarrow> Done (h(q \<mapsto> d), q)
           | Raised e \<Rightarrow> Raised e
           | Fault f \<Rightarrow> Fault f))"

text \<open>
  The two writing calls with their arguments, on the content of a block.
\<close>

datatype writing =
    SetCh int wchar_t "attr_t option" "int option"
  | SetStr int "byte list" "attr_t option" "int option"

fun perform :: "env \<Rightarrow> writing \<Rightarrow> chstr \<Rightarrow> upd" where
  "perform E (SetCh o1 ch a r) cs = Cset_ch cs o1 ch a r"
| "perform E (SetStr o1 s a r) cs = Cset_str E cs o1 s a r"

text \<open>
  A writing call \<open>w\<close> on the userdata that points to \<open>p\<close>. \<open>q\<close> is the address
  \<^verbatim>\<open>realloc\<close> returns if the call reaches it (line 138), where the userdata is updated
  (line 144). A call that does not change \<^verbatim>\<open>size\<close> has not reallocated. The result is the
  new heap, the pointer the userdata holds after the call, and the error if one was raised.
\<close>

definition write_at ::
  "env \<Rightarrow> heap \<Rightarrow> addr \<Rightarrow> addr \<Rightarrow> writing \<Rightarrow> fault + heap \<times> addr \<times> error option" where
  "write_at E h p q w =
     (case h p of
        None \<Rightarrow> Inl DeadBlock
      | Some cs \<Rightarrow>
          (case perform E w cs of
             Updated cs' \<Rightarrow>
               if size_cs cs' = size_cs cs then Inr (h(p \<mapsto> cs'), p, None)
               else Inr ((h(p := None))(q \<mapsto> cs'), q, None)
           | Failed e cs' \<Rightarrow> Inr (h(p \<mapsto> cs'), p, Some e)
           | Faulted x \<Rightarrow> Inl x))"

subsection \<open>The codepoints of a text\<close>

text \<open>
  What both decoding loops compute, without their bookkeeping: the codepoints of a text,
  \<open>None\<close> when some sequence is malformed.
\<close>

function decode :: "byte list \<Rightarrow> nat list option" where
  "decode s =
     (if s = [] then Some []
      else case utf8_decode s of
             None \<Rightarrow> None
           | Some (code, s') \<Rightarrow> map_option ((#) code) (decode s'))"
  by pat_completeness auto
termination
  by (relation "measure length")
    (auto simp: Let_def neq_Nil_conv split: if_splits list.splits)

declare decode.simps [simp del]

text \<open>
  An environment to run the model in: the constants of ncursesw 6 (\<^verbatim>\<open>A_NORMAL\<close> is 0,
  \<^verbatim>\<open>A_ATTRIBUTES\<close> is \<^verbatim>\<open>0xFFFFFF00\<close>, \<^verbatim>\<open>A_COLOR\<close> is \<^verbatim>\<open>0xFF00\<close>), an allocator that
  satisfies every request, and fresh cells of zeros.
\<close>

definition ncurses :: env where
  "ncurses = \<lparr>A_NORMAL = 0, A_ATTRIBUTES = 0xFFFFFF00, A_COLOR = 0xFF00,
     grants = (\<lambda>_. True), junk = (\<lambda>_. \<lparr>attr = 0, chars0 = 0, chars1 = 0\<rparr>)\<rparr>"

text \<open>
  The buffer of section 8 of the specification: ten blank cells.
\<close>

definition ten_blanks :: chstr where
  "ten_blanks = \<lparr>len = 10, size_cs = 10, str = replicate 10 (blank ncurses)\<rparr>"

text \<open>
  A buffer made from the two bytes of U+00E9: one codepoint in a block of two cells.
\<close>

definition e_acute :: chstr where
  "e_acute = \<lparr>len = 1, size_cs = 2,
     str = [\<lparr>attr = 0, chars0 = 0xE9, chars1 = 0\<rparr>, \<lparr>attr = 0, chars0 = 0, chars1 = 0\<rparr>]\<rparr>"

text \<open>
  The text of the documentation of \<^verbatim>\<open>Clen\<close> and \<^verbatim>\<open>Csize\<close> (lines 244 and 261), "hi," and
  the two codepoints U+4E16 and U+754C of three bytes each, and the buffer that
  \<^verbatim>\<open>chstr_new\<close> makes of it with the attribute 7.
\<close>

definition hi_text :: "byte list" where
  "hi_text = [0x68, 0x69, 0x2C, 0xE4, 0xB8, 0x96, 0xE7, 0x95, 0x8C]"

definition hi_buffer :: chstr where
  "hi_buffer = \<lparr>len = 5, size_cs = 9,
     str = [\<lparr>attr = 7, chars0 = 0x68, chars1 = 0\<rparr>, \<lparr>attr = 7, chars0 = 0x69, chars1 = 0\<rparr>,
            \<lparr>attr = 7, chars0 = 0x2C, chars1 = 0\<rparr>, \<lparr>attr = 7, chars0 = 0x4E16, chars1 = 0\<rparr>,
            \<lparr>attr = 7, chars0 = 0x754C, chars1 = 0\<rparr>, \<lparr>attr = 0, chars0 = 0, chars1 = 0\<rparr>,
            \<lparr>attr = 0, chars0 = 0, chars1 = 0\<rparr>, \<lparr>attr = 0, chars0 = 0, chars1 = 0\<rparr>,
            \<lparr>attr = 0, chars0 = 0, chars1 = 0\<rparr>]\<rparr>"

text \<open>
  A sequence of writing calls on one userdata, each with the address that \<^verbatim>\<open>realloc\<close>
  returns if the call reaches it: the old address, or one of no live block. The result is
  \<open>None\<close> when the address is neither, which no allocator does, and when a call leaves
  the defined behaviour; otherwise it is the heap and the pointer of the userdata after
  the calls.
\<close>

fun writes_at :: "env \<Rightarrow> heap \<Rightarrow> addr \<Rightarrow> (writing \<times> addr) list \<Rightarrow> (heap \<times> addr) option" where
  "writes_at E h p [] = Some (h, p)"
| "writes_at E h p ((w, r) # ws) =
     (if r \<noteq> p \<and> h r \<noteq> None then None
      else case write_at E h p r w of
             Inl x \<Rightarrow> None
           | Inr (h', p', e) \<Rightarrow> writes_at E h' p' ws)"

text \<open>
  A text of \<open>2 ^ 32\<close> bytes: \<open>2 ^ 30\<close> times the four bytes of U+1F600; and the buffer
  that \<^verbatim>\<open>chstr_new\<close> makes of it.
\<close>

definition smiley :: "byte list" where
  "smiley = [0xF0, 0x9F, 0x98, 0x80]"

definition giga :: nat where
  "giga = 2 ^ 30"

definition big_text :: "byte list" where
  "big_text = concat (replicate giga smiley)"

definition big_buffer :: chstr where
  "big_buffer = \<lparr>len = giga, size_cs = 0,
     str = write_codes 0 (replicate giga 0x1F600) 0 (malloc_cells ncurses (4 * giga))\<rparr>"

section \<open>The loops\<close>

lemma utf8_decode_shorter:
  "utf8_decode s = Some (c, r) \<Longrightarrow> length r < length s"
  by (cases s) (auto simp: Let_def split: if_splits list.splits)

lemma fill_blank_eq:
  "length cells = n \<Longrightarrow> i \<le> n \<Longrightarrow>
   fill_blank E i n cells = take i cells @ replicate (n - i) (blank E)"
proof (induction E i n cells rule: fill_blank.induct)
  case (1 E i n cells)
  show ?case
  proof (cases "i < n")
    case True
    then have "fill_blank E i n cells = fill_blank E (Suc i) n (cells[i := blank E])"
      by (subst fill_blank.simps) simp
    also have "\<dots> = take (Suc i) (cells[i := blank E]) @ replicate (n - Suc i) (blank E)"
      using 1 True by simp
    also have "take (Suc i) (cells[i := blank E]) = take i cells @ [blank E]"
      using 1 True by (simp add: take_Suc_conv_app_nth)
    finally have "fill_blank E i n cells = take i cells @ blank E # replicate (n - Suc i) (blank E)"
      by simp
    moreover have "n - i = Suc (n - Suc i)" using True by simp
    ultimately show ?thesis by simp
  next
    case False
    with 1 show ?thesis by (subst fill_blank.simps) simp
  qed
qed

lemma decode_Nil: "decode [] = Some []"
  by (subst decode.simps) simp

lemma decode_length_le: "decode s = Some codes \<Longrightarrow> length codes \<le> length s"
proof (induction s arbitrary: codes rule: decode.induct)
  case (1 s)
  show ?case
  proof (cases "s = []")
    case True
    with 1(2) show ?thesis by (simp add: decode_Nil)
  next
    case False
    with 1(2) obtain c s' cs
      where d: "utf8_decode s = Some (c, s')" and r: "decode s' = Some cs" and e: "codes = c # cs"
      by (subst (asm) decode.simps) (auto split: option.splits)
    from 1(1)[OF False d refl r] utf8_decode_shorter[OF d] e show ?thesis by simp
  qed
qed

lemma decode_nonempty: "decode s = Some codes \<Longrightarrow> s \<noteq> [] \<Longrightarrow> codes \<noteq> []"
  by (subst (asm) decode.simps) (auto split: option.splits)

text \<open>The loop of \<^verbatim>\<open>Cset_str\<close> ends normally exactly on a well-formed text.\<close>

lemma decode_loop_Inr:
  "decode_loop s acc = Inr codes \<longleftrightarrow> (\<exists>cs. decode s = Some cs \<and> codes = acc @ cs)"
proof (induction s acc arbitrary: codes rule: decode_loop.induct)
  case (1 s acc)
  show ?case
  proof (cases "s = []")
    case True
    then show ?thesis by (subst decode_loop.simps) (auto simp: decode_Nil)
  next
    case False
    show ?thesis
    proof (cases "utf8_decode s")
      case None
      with False show ?thesis by (subst decode_loop.simps, subst decode.simps) simp
    next
      case (Some x)
      obtain c s' where x: "x = (c, s')" by (cases x)
      from 1[OF False Some[unfolded x] refl] False Some x
      show ?thesis by (subst decode_loop.simps, subst decode.simps) auto
    qed
  qed
qed

text \<open>At the exit of line 122 the pointer \<^verbatim>\<open>code_array\<close> has moved.\<close>

lemma decode_loop_Inl_pos: "decode_loop s acc = Inl k \<Longrightarrow> 0 < k"
proof (induction s acc rule: decode_loop.induct)
  case (1 s acc)
  from 1(2) show ?case
    by (subst (asm) decode_loop.simps) (auto split: if_splits option.splits intro: 1(1))
qed

lemma decode_loop_Inl: "(\<exists>k. decode_loop s acc = Inl k) \<longleftrightarrow> decode s = None"
proof (cases "decode s")
  case None
  then have "\<And>codes. decode_loop s acc \<noteq> Inr codes" by (simp add: decode_loop_Inr)
  with None show ?thesis by (cases "decode_loop s acc") auto
next
  case (Some cs)
  then have "decode_loop s acc = Inr (acc @ cs)" by (simp add: decode_loop_Inr)
  with Some show ?thesis by simp
qed

text \<open>
  The loop of \<^verbatim>\<open>chstr_new\<close> writes the codepoints of the text, one cell each, as long as
  the counter stays an \<^verbatim>\<open>int\<close>.
\<close>

lemma new_loop_Done:
  "decode s = Some cs \<Longrightarrow> int (i + length cs) \<le> INT_MAX \<Longrightarrow>
   new_loop a s i cells = Done (i + length cs, write_codes a cs i cells)"
proof (induction a s i cells arbitrary: cs rule: new_loop.induct)
  case (1 a s i cells)
  show ?case
  proof (cases "s = []")
    case True
    with "1.prems" show ?thesis by (subst new_loop.simps) (simp add: decode_Nil)
  next
    case False
    with "1.prems"(1) obtain c s' cs' where d: "utf8_decode s = Some (c, s')"
      and r: "decode s' = Some cs'" and e: "cs = c # cs'"
      by (subst (asm) decode.simps) (auto split: option.splits)
    from "1.prems"(2) e have b: "\<not> INT_MAX \<le> int i" "int (Suc i + length cs') \<le> INT_MAX"
      by simp_all
    from "1.IH" [OF False d refl b(1) r b(2)] False d b(1) e
    show ?thesis by (subst new_loop.simps) simp
  qed
qed

lemma new_loop_DoneD:
  "new_loop a s i cells = Done (j, cells') \<Longrightarrow> int i \<le> INT_MAX \<Longrightarrow>
   \<exists>cs. decode s = Some cs \<and> j = i + length cs \<and> cells' = write_codes a cs i cells
        \<and> int j \<le> INT_MAX"
proof (induction a s i cells rule: new_loop.induct)
  case (1 a s i cells)
  show ?case
  proof (cases "s = []")
    case True
    with "1.prems" show ?thesis
      by (subst (asm) new_loop.simps) (simp add: decode_Nil)
  next
    case False
    with "1.prems"(1) obtain c s' where d: "utf8_decode s = Some (c, s')"
      and b: "\<not> INT_MAX \<le> int i"
      and n: "new_loop a s' (Suc i) (cells[i := cell a c]) = Done (j, cells')"
      by (subst (asm) new_loop.simps) (auto split: option.splits if_splits)
    from b have "int (Suc i) \<le> INT_MAX" by simp
    from "1.IH" [OF False d refl b n this] obtain cs' where r: "decode s' = Some cs'"
      and j: "j = Suc i + length cs'" "cells' = write_codes a cs' (Suc i) (cells[i := cell a c])"
        "int j \<le> INT_MAX"
      by blast
    from False d r have "decode s = Some (c # cs')" by (subst decode.simps) simp
    with j show ?thesis by simp
  qed
qed

lemma new_loop_malformed:
  "decode s = None \<Longrightarrow> int (i + length s) \<le> INT_MAX \<Longrightarrow>
   new_loop a s i cells = Raised InvalidEncoding"
proof (induction a s i cells rule: new_loop.induct)
  case (1 a s i cells)
  from "1.prems"(1) have ne: "s \<noteq> []" by (auto simp: decode_Nil)
  show ?case
  proof (cases "utf8_decode s")
    case None
    with ne show ?thesis by (subst new_loop.simps) simp
  next
    case (Some x)
    obtain c s' where x: "x = (c, s')" by (cases x)
    from Some x have d: "utf8_decode s = Some (c, s')" by simp
    from "1.prems"(1) ne d have r: "decode s' = None"
      by (subst (asm) decode.simps) simp
    from ne "1.prems"(2) have b: "\<not> INT_MAX \<le> int i" by (cases s) simp_all
    from utf8_decode_shorter [OF d] "1.prems"(2) have "int (Suc i + length s') \<le> INT_MAX"
      by simp
    from "1.IH" [OF ne d refl b r this] ne d b show ?thesis
      by (subst new_loop.simps) simp
  qed
qed

lemma length_write_codes: "length (write_codes a cs p cells) = length cells"
  by (induction cs arbitrary: p cells) auto

lemma nth_write_codes:
  "p + length cs \<le> length cells \<Longrightarrow> j < length cells \<Longrightarrow>
   write_codes a cs p cells ! j =
     (if p \<le> j \<and> j < p + length cs then cell a (cs ! (j - p)) else cells ! j)"
proof (induction cs arbitrary: p cells)
  case Nil
  then show ?case by auto
next
  case (Cons c cs)
  then show ?case by (auto simp: nth_list_update nth_Cons')
qed

lemma length_write_rep: "length (write_rep n a cs p cells) = length cells"
  by (induction n arbitrary: p cells) (auto simp: length_write_codes)

text \<open>The text is tiled: position \<open>j\<close> of the written range holds code \<open>(j - p) mod d\<close>.\<close>

lemma nth_write_rep:
  "p + n * length cs \<le> length cells \<Longrightarrow> j < length cells \<Longrightarrow>
   write_rep n a cs p cells ! j =
     (if p \<le> j \<and> j < p + n * length cs then cell a (cs ! ((j - p) mod length cs))
      else cells ! j)"
proof (induction n arbitrary: p cells)
  case 0
  then show ?case by auto
next
  case (Suc n)
  let ?d = "length cs"
  let ?w = "write_codes a cs p cells"
  have b: "p + ?d \<le> length cells" "p + ?d + n * ?d \<le> length ?w" "j < length ?w"
    using Suc.prems by (simp_all add: length_write_codes)
  have "write_rep (Suc n) a cs p cells ! j = write_rep n a cs (p + ?d) ?w ! j" by simp
  also have "\<dots> = (if p + ?d \<le> j \<and> j < p + ?d + n * ?d
                      then cell a (cs ! ((j - (p + ?d)) mod ?d)) else ?w ! j)"
    by (rule Suc.IH [OF b(2) b(3)])
  finally have e: "write_rep (Suc n) a cs p cells ! j =
       (if p + ?d \<le> j \<and> j < p + ?d + n * ?d
        then cell a (cs ! ((j - (p + ?d)) mod ?d)) else ?w ! j)" .
  show ?case
  proof (cases "p + ?d \<le> j")
    case True
    then have "j - p = (j - (p + ?d)) + ?d" by simp
    then have "(j - (p + ?d)) mod ?d = (j - p) mod ?d" by (simp only: mod_add_self2)
    with True e Suc.prems show ?thesis
      by (auto simp: nth_write_codes [OF b(1)])
  next
    case False
    with e Suc.prems show ?thesis
      by (auto simp: nth_write_codes [OF b(1)])
  qed
qed

lemma length_set_ch_loop: "length (set_ch_loop n a ch p cells) = length cells"
  by (induction n arbitrary: p cells) auto

lemma nth_set_ch_loop:
  "p + n \<le> length cells \<Longrightarrow> j < length cells \<Longrightarrow>
   set_ch_loop n a ch p cells ! j =
     (if p \<le> j \<and> j < p + n then put_ch a ch (cells ! j) else cells ! j)"
  by (induction n arbitrary: p cells) (auto simp: nth_list_update)

section \<open>Calls of \<^verbatim>\<open>set_str\<close> that return\<close>

lemma length_str_grow:
  "length (str cs) = size_cs cs \<Longrightarrow> length (str (grow E cs m)) = max (size_cs cs) m"
  by (simp add: grow_def realloc_cells_def)

lemma Cset_str_UpdatedD:
  assumes inv: "chstr_inv cs" and u: "Cset_str E cs o1 s a r = Updated cs'"
  shows "\<exists>codes. decode s = Some codes \<and> codes \<noteq> [] \<and> 0 < o1 \<and> o1 \<le> int (len cs) \<and> 0 < optint r 1
           \<and> int (length codes) * optint r 1 + (o1 - 1) \<le> INT_MAX
           \<and> cs' = set_str_result E cs (nat (o1 - 1)) codes (optint a (A_NORMAL E)) (nat (optint r 1))"
proof -
  from inv have ti: "to_int (len cs) = int (len cs)"
    by (simp add: chstr_inv_def to_int_def)
  from u ti have o: "0 < o1" "o1 \<le> int (len cs)" and rp: "0 < optint r 1"
    by (auto simp: Cset_str_def Let_def split: if_splits)
  from u o rp ti obtain codes where dl: "decode_loop s [] = Inr codes"
    by (cases "decode_loop s []") (auto simp: Cset_str_def Let_def split: if_splits)
  then have d: "decode s = Some codes" by (simp add: decode_loop_Inr)
  from u o rp ti dl have ne: "codes \<noteq> []"
    and ov: "int (length codes) * optint r 1 + (o1 - 1) \<le> INT_MAX"
    by (auto simp: Cset_str_def Let_def split: if_splits)
  have ns: "nat (int (length codes) * optint r 1 + (o1 - 1)) = length codes * nat (optint r 1) + nat (o1 - 1)"
    using o rp by (simp add: nat_add_distrib nat_mult_distrib)
  from u o rp ti dl ne ov
  have "cs' = set_str_result E cs (nat (o1 - 1)) codes (optint a (A_NORMAL E)) (nat (optint r 1))"
    by (auto simp: Cset_str_def Let_def set_str_result_def ns split: if_splits)
  with d ne o rp ov show ?thesis by blast
qed

lemma Cset_str_UpdatedI:
  assumes inv: "chstr_inv cs" and o: "0 < o1" "o1 \<le> int (len cs)" and rp: "0 < optint r 1"
    and g: "grants E (Codes (length s))" and d: "decode s = Some codes" and ne: "s \<noteq> []"
    and ov: "int (length codes) * optint r 1 + (o1 - 1) \<le> INT_MAX"
    and lo: "int (length s) \<le> INT_MAX"
    and gr: "length codes * nat (optint r 1) + nat (o1 - 1) \<le> size_cs cs
             \<or> grants E (Cells (length codes * nat (optint r 1) + nat (o1 - 1)))"
  shows "Cset_str E cs o1 s a r =
     Updated (set_str_result E cs (nat (o1 - 1)) codes (optint a (A_NORMAL E)) (nat (optint r 1)))"
proof -
  from inv o have ti: "to_int (len cs) = int (len cs)"
    by (simp add: chstr_inv_def to_int_def)
  from d have dl: "decode_loop s [] = Inr codes" by (simp add: decode_loop_Inr)
  from d ne have cne: "codes \<noteq> []" by (rule decode_nonempty)
  have ns: "nat (int (length codes) * optint r 1 + (o1 - 1)) = length codes * nat (optint r 1) + nat (o1 - 1)"
    using o rp by (simp add: nat_add_distrib nat_mult_distrib)
  let ?m = "length codes * nat (optint r 1) + nat (o1 - 1)"
  from inv have "length (str (advance (grow E cs ?m) ?m)) = max (size_cs cs) ?m"
    by (simp add: advance_def length_str_grow chstr_inv_def)
  then have lb: "\<not> length (str (advance (grow E cs ?m) ?m)) < ?m" by simp
  show ?thesis
    using o rp ti g dl cne ov lo gr lb
    by (auto simp: Cset_str_def Let_def set_str_result_def ns)
qed

lemma set_str_result_fields:
  assumes "len cs \<le> size_cs cs"
  shows "size_cs (set_str_result E cs p codes at n) = max (size_cs cs) (length codes * n + p)"
    and "len (set_str_result E cs p codes at n) = max (len cs) (length codes * n + p)"
  using assms by (auto simp: set_str_result_def Let_def advance_def grow_def)

lemma set_str_result_str:
  assumes "length (str cs) = size_cs cs"
  shows "str (set_str_result E cs p codes at n) =
           write_rep n at codes p (realloc_cells E (str cs) (max (size_cs cs) (length codes * n + p)))"
  using assms by (auto simp: set_str_result_def Let_def advance_def grow_def realloc_cells_def max_def)

section \<open>Construction by size\<close>

lemma length_malloc_cells: "length (malloc_cells E n) = n"
  by (simp add: malloc_cells_def)

lemma to_int_id: "int n \<le> INT_MAX \<Longrightarrow> to_int n = int n"
  by (simp add: to_int_def)

lemma chstr_new_by_size_Done:
  "0 < n \<Longrightarrow> grants E (Cells n) \<Longrightarrow>
   chstr_new_by_size E n = Done \<lparr>len = n, size_cs = n, str = replicate n (blank E)\<rparr>"
  by (simp add: chstr_new_by_size_def fill_blank_eq length_malloc_cells)

text \<open>
  C6. For every \<open>n \<ge> 1\<close> (an \<^verbatim>\<open>int\<close>, so at most \<^verbatim>\<open>INT_MAX\<close>), construction by size
  returns, when the allocator grants the block, a buffer of length \<open>n\<close> and capacity
  \<open>n\<close> in which \<^verbatim>\<open>get\<close> reads, at every offset from 1 to \<open>n\<close>, the codepoint U+0020
  with the style bits and the colour bits of \<^verbatim>\<open>A_NORMAL\<close>. For \<open>n < 1\<close> the construction
  fails with \<open>InvalidArgument\<close> ("bad len") and returns no buffer.
\<close>

theorem create_chstr_by_size:
  "(0 < n \<and> n \<le> INT_MAX \<and> grants E (Cells (nat n)) \<longrightarrow>
      (\<exists>cs. create_chstr E (LNumber n) a = Done cs \<and> len cs = nat n \<and> size_cs cs = nat n \<and>
         (\<forall>i. 1 \<le> i \<and> i \<le> n \<longrightarrow>
            Cget E cs i = Done (0x20, A_NORMAL E AND A_ATTRIBUTES E, A_NORMAL E AND A_COLOR E))))
   \<and> (n < 1 \<longrightarrow> create_chstr E (LNumber n) a = Raised InvalidArgument)"
proof (intro conjI impI)
  assume h: "0 < n \<and> n \<le> INT_MAX \<and> grants E (Cells (nat n))"
  let ?cs = "\<lparr>len = nat n, size_cs = nat n, str = replicate (nat n) (blank E)\<rparr>"
  from h have "chstr_new_by_size E (nat n) = Done ?cs"
    by (simp add: chstr_new_by_size_Done)
  with h have c: "create_chstr E (LNumber n) a = Done ?cs"
    by (simp add: create_chstr_def null_check_def)
  have "Cget E ?cs i = Done (0x20, A_NORMAL E AND A_ATTRIBUTES E, A_NORMAL E AND A_COLOR E)"
    if "1 \<le> i \<and> i \<le> n" for i
    using that h by (simp add: Cget_def to_int_id blank_def)
  with c show "\<exists>cs. create_chstr E (LNumber n) a = Done cs \<and> len cs = nat n \<and> size_cs cs = nat n \<and>
         (\<forall>i. 1 \<le> i \<and> i \<le> n \<longrightarrow>
            Cget E cs i = Done (0x20, A_NORMAL E AND A_ATTRIBUTES E, A_NORMAL E AND A_COLOR E))"
    by simp
next
  assume "n < 1"
  then show "create_chstr E (LNumber n) a = Raised InvalidArgument"
    by (simp add: create_chstr_def)
qed

theorem create_chstr_by_size_witness:
  "(0::int) < 3 \<and> (3::int) \<le> INT_MAX \<and> grants ncurses (Cells (nat 3)) \<and>
   (\<exists>cs. create_chstr ncurses (LNumber 3) None = Done cs \<and> len cs = 3 \<and> size_cs cs = 3 \<and>
      Cget ncurses cs 2 = Done (0x20, 0, 0)) \<and>
   (0::int) < 1 \<and> create_chstr ncurses (LNumber 0) None = Raised InvalidArgument"
proof -
  have h: "(0::int) < 3 \<and> (3::int) \<le> INT_MAX \<and> grants ncurses (Cells (nat 3))"
    by (simp add: INT_MAX_def ncurses_def)
  from create_chstr_by_size [of 3 ncurses None] h
  obtain cs where c: "create_chstr ncurses (LNumber 3) None = Done cs" "len cs = 3" "size_cs cs = 3"
    and g: "\<forall>i. 1 \<le> i \<and> i \<le> 3 \<longrightarrow>
       Cget ncurses cs i = Done (0x20, A_NORMAL ncurses AND A_ATTRIBUTES ncurses, A_NORMAL ncurses AND A_COLOR ncurses)"
    by auto
  from g have "Cget ncurses cs 2 = Done (0x20, 0, 0)"
    by (simp add: ncurses_def)
  moreover have "create_chstr ncurses (LNumber 0) None = Raised InvalidArgument"
    using create_chstr_by_size [of 0 ncurses None] by simp
  ultimately show ?thesis using h c by auto
qed

section \<open>Writes that grow the buffer\<close>

lemma decode_AB: "decode [0x41, 0x42] = Some [0x41, 0x42]"
  by (simp add: decode.simps)

lemma ten_blanks_inv: "chstr_inv ten_blanks"
  by (simp add: chstr_inv_def ten_blanks_def INT_MAX_def)

text \<open>
  C1. For every buffer that satisfies the invariant and every call of \<^verbatim>\<open>set_str\<close> that returns, the text decodes
  to some codepoints, and with \<open>required = (offset - 1) + decoded_length * repeat\<close>:
  if \<open>required\<close> is above the capacity before the call, the capacity after it is exactly
  \<open>required\<close>; if \<open>required\<close> is above the length before the call, the length after it
  is \<open>required\<close>; if \<open>required\<close> is at most the length before the call, length and
  capacity are unchanged.
\<close>

theorem Cset_str_extent:
  assumes "chstr_inv cs" and "Cset_str E cs o1 s a r = Updated cs'"
  shows "\<exists>codes. decode s = Some codes \<and>
     (let required = nat (o1 - 1) + length codes * nat (optint r 1) in
        (size_cs cs < required \<longrightarrow> size_cs cs' = required) \<and>
        (len cs < required \<longrightarrow> len cs' = required) \<and>
        (required \<le> len cs \<longrightarrow> len cs' = len cs \<and> size_cs cs' = size_cs cs))"
proof -
  from Cset_str_UpdatedD [OF assms] obtain codes where d: "decode s = Some codes"
    and e: "cs' = set_str_result E cs (nat (o1 - 1)) codes (optint a (A_NORMAL E)) (nat (optint r 1))"
    by blast
  from assms(1) have le: "len cs \<le> size_cs cs" by (simp add: chstr_inv_def)
  have "size_cs cs' = max (size_cs cs) (length codes * nat (optint r 1) + nat (o1 - 1))"
    and "len cs' = max (len cs) (length codes * nat (optint r 1) + nat (o1 - 1))"
    unfolding e by (rule set_str_result_fields [OF le])+
  with d le show ?thesis by (auto simp: Let_def max_def add.commute)
qed

lemma set_AB_twice:
  "Cset_str ncurses ten_blanks 8 [0x41, 0x42] (Some 5) (Some 2) =
     Updated (set_str_result ncurses ten_blanks 7 [0x41, 0x42] 5 2)"
proof -
  have "Cset_str ncurses ten_blanks 8 [0x41, 0x42] (Some 5) (Some 2) =
     Updated (set_str_result ncurses ten_blanks (nat (8 - 1)) [0x41, 0x42]
        (optint (Some 5) (A_NORMAL ncurses)) (nat (optint (Some 2) 1)))"
    by (rule Cset_str_UpdatedI [OF ten_blanks_inv _ _ _ _ decode_AB])
       (simp_all add: optint_def ten_blanks_def ncurses_def INT_MAX_def)
  then show ?thesis by (simp add: optint_def)
qed

lemma set_AB_once:
  "Cset_str ncurses ten_blanks 1 [0x41, 0x42] None None =
     Updated (set_str_result ncurses ten_blanks 0 [0x41, 0x42] 0 1)"
proof -
  have "Cset_str ncurses ten_blanks 1 [0x41, 0x42] None None =
     Updated (set_str_result ncurses ten_blanks (nat (1 - 1)) [0x41, 0x42]
        (optint None (A_NORMAL ncurses)) (nat (optint None 1)))"
    by (rule Cset_str_UpdatedI [OF ten_blanks_inv _ _ _ _ decode_AB])
       (simp_all add: optint_def ten_blanks_def ncurses_def INT_MAX_def)
  then show ?thesis by (simp add: optint_def ncurses_def)
qed

theorem Cset_str_extent_witness:
  "chstr_inv ten_blanks \<and>
   Cset_str ncurses ten_blanks 8 [0x41, 0x42] (Some 5) (Some 2) =
     Updated (set_str_result ncurses ten_blanks 7 [0x41, 0x42] 5 2) \<and>
   size_cs ten_blanks < 7 + 2 * 2 \<and> len ten_blanks < 7 + 2 * 2 \<and>
   size_cs (set_str_result ncurses ten_blanks 7 [0x41, 0x42] 5 2) = 11 \<and>
   len (set_str_result ncurses ten_blanks 7 [0x41, 0x42] 5 2) = 11 \<and>
   Cset_str ncurses ten_blanks 1 [0x41, 0x42] None None =
     Updated (set_str_result ncurses ten_blanks 0 [0x41, 0x42] 0 1) \<and>
   0 + 2 * 1 \<le> len ten_blanks \<and>
   len (set_str_result ncurses ten_blanks 0 [0x41, 0x42] 0 1) = 10 \<and>
   size_cs (set_str_result ncurses ten_blanks 0 [0x41, 0x42] 0 1) = 10"
proof -
  have f: "size_cs ten_blanks = 10" "len ten_blanks = 10" by (simp_all add: ten_blanks_def)
  from Cset_str_extent [OF ten_blanks_inv set_AB_twice]
  have "size_cs (set_str_result ncurses ten_blanks 7 [0x41, 0x42] 5 2) = 11 \<and>
        len (set_str_result ncurses ten_blanks 7 [0x41, 0x42] 5 2) = 11"
    by (simp add: decode_AB optint_def f)
  moreover from Cset_str_extent [OF ten_blanks_inv set_AB_once]
  have "len (set_str_result ncurses ten_blanks 0 [0x41, 0x42] 0 1) = 10 \<and>
        size_cs (set_str_result ncurses ten_blanks 0 [0x41, 0x42] 0 1) = 10"
    by (simp add: decode_AB optint_def f)
  ultimately show ?thesis
    using ten_blanks_inv set_AB_twice set_AB_once f by simp
qed

text \<open>
  C4. For every buffer that satisfies the invariant and every call of \<^verbatim>\<open>set_str\<close> that returns, with the decoded
  codepoints \<open>c\<close> of length \<open>d\<close>: the cell at 1-based position \<open>offset + k\<close>, for
  \<open>k < d * repeat\<close>, holds the codepoint \<open>c[k mod d]\<close> and the attribute of the call
  (\<^verbatim>\<open>A_NORMAL\<close> when none was given), whatever it held; these cells lie within the new
  length; every other cell of the block before the call keeps its content.
\<close>

theorem Cset_str_cells:
  assumes "chstr_inv cs" and "Cset_str E cs o1 s a r = Updated cs'"
  shows "\<exists>c. decode s = Some c \<and> c \<noteq> [] \<and>
     nat (o1 - 1) + length c * nat (optint r 1) \<le> len cs' \<and> len cs' \<le> length (str cs') \<and>
     (\<forall>k < length c * nat (optint r 1).
        attr (str cs' ! (nat (o1 - 1) + k)) = optint a (A_NORMAL E) \<and>
        chars0 (str cs' ! (nat (o1 - 1) + k)) = of_nat (c ! (k mod length c))) \<and>
     (\<forall>j < size_cs cs.
        \<not> (nat (o1 - 1) \<le> j \<and> j < nat (o1 - 1) + length c * nat (optint r 1)) \<longrightarrow>
        str cs' ! j = str cs ! j)"
proof -
  let ?p = "nat (o1 - 1)" and ?n = "nat (optint r 1)" and ?at = "optint a (A_NORMAL E)"
  from Cset_str_UpdatedD [OF assms] obtain c where d: "decode s = Some c" and ne: "c \<noteq> []"
    and e: "cs' = set_str_result E cs ?p c ?at ?n"
    by blast
  let ?m = "max (size_cs cs) (length c * ?n + ?p)"
  let ?cells = "realloc_cells E (str cs) ?m"
  from assms(1) have le: "len cs \<le> size_cs cs" and ls: "length (str cs) = size_cs cs"
    by (simp_all add: chstr_inv_def)
  have st: "str cs' = write_rep ?n ?at c ?p ?cells"
    unfolding e by (rule set_str_result_str [OF ls])
  have lc: "length ?cells = ?m"
    using ls by (simp add: realloc_cells_def)
  have fit: "?p + ?n * length c \<le> length ?cells"
    unfolding lc by (simp add: mult.commute add.commute)
  have sz: "size_cs cs' = ?m" and ln: "len cs' = max (len cs) (length c * ?n + ?p)"
    unfolding e by (rule set_str_result_fields [OF le])+
  have old: "?cells ! j = str cs ! j" if "j < size_cs cs" for j
    using that ls by (simp add: realloc_cells_def nth_append)
  have w: "str cs' ! (?p + k) = cell ?at (c ! (k mod length c))" if "k < length c * ?n" for k
  proof -
    from that have "?p + k < length ?cells" unfolding lc by simp
    from nth_write_rep [OF fit this, of ?at] that show ?thesis
      unfolding st by (simp add: mult.commute)
  qed
  have k: "str cs' ! j = str cs ! j"
    if "j < size_cs cs" "\<not> (?p \<le> j \<and> j < ?p + length c * ?n)" for j
  proof -
    from that have "j < length ?cells" unfolding lc by simp
    from nth_write_rep [OF fit this, of ?at] that old show ?thesis
      unfolding st by (simp add: mult.commute)
  qed
  have "?p + length c * ?n \<le> len cs'" unfolding ln by simp
  moreover have "len cs' \<le> length (str cs')"
    unfolding st length_write_rep lc ln using le by simp
  ultimately show ?thesis
    using d ne w k by (auto simp: cell_def)
qed

theorem Cset_str_cells_witness:
  "chstr_inv ten_blanks \<and>
   Cset_str ncurses ten_blanks 8 [0x41, 0x42] (Some 5) (Some 2) =
     Updated (set_str_result ncurses ten_blanks 7 [0x41, 0x42] 5 2) \<and>
   (3::nat) < 2 * 2 \<and> 2 < size_cs ten_blanks \<and> \<not> (7 \<le> (2::nat) \<and> (2::nat) < 7 + 2 * 2) \<and>
   attr (str (set_str_result ncurses ten_blanks 7 [0x41, 0x42] 5 2) ! 10) = 5 \<and>
   chars0 (str (set_str_result ncurses ten_blanks 7 [0x41, 0x42] 5 2) ! 10) = 0x42 \<and>
   str (set_str_result ncurses ten_blanks 7 [0x41, 0x42] 5 2) ! 2 = blank ncurses"
proof -
  let ?cs' = "set_str_result ncurses ten_blanks 7 [0x41, 0x42] 5 2"
  from Cset_str_cells [OF ten_blanks_inv set_AB_twice]
  obtain c where d: "decode [0x41, 0x42] = Some c"
    and w: "\<forall>k < length c * nat (optint (Some 2) 1).
              attr (str ?cs' ! (nat (8 - 1) + k)) = optint (Some 5) (A_NORMAL ncurses) \<and>
              chars0 (str ?cs' ! (nat (8 - 1) + k)) = of_nat (c ! (k mod length c))"
    and k: "\<forall>j < size_cs ten_blanks.
              \<not> (nat (8 - 1) \<le> j \<and> j < nat (8 - 1) + length c * nat (optint (Some 2) 1)) \<longrightarrow>
              str ?cs' ! j = str ten_blanks ! j"
    by blast
  from d have c: "c = [0x41, 0x42]" by (simp add: decode_AB)
  have lc: "length c = 2" and c1: "c ! 1 = 0x42" by (simp_all add: c)
  have "attr (str ?cs' ! 10) = 5 \<and> chars0 (str ?cs' ! 10) = of_nat (c ! 1)"
    using w [rule_format, of 3] by (simp add: lc optint_def)
  then have a: "attr (str ?cs' ! 10) = 5 \<and> chars0 (str ?cs' ! 10) = 0x42"
    by (simp add: c)
  have "str ?cs' ! 2 = str ten_blanks ! 2"
    using k [rule_format, of 2] by (simp add: lc optint_def ten_blanks_def)
  then have b: "str ?cs' ! 2 = blank ncurses" by (simp add: ten_blanks_def)
  show ?thesis using ten_blanks_inv set_AB_twice a b by (simp add: ten_blanks_def)
qed

section \<open>Growth within the block\<close>

lemma chstr_new_e_acute: "chstr_new ncurses [0xC3, 0xA9] 0 = Done e_acute"
  by (simp add: chstr_new_def new_loop.simps cont_def low6_def ncurses_def INT_MAX_def
      malloc_cells_def cell_def e_acute_def upt_rec)

lemma e_acute_inv: "chstr_inv e_acute"
  by (simp add: chstr_inv_def e_acute_def INT_MAX_def)

lemma decode_ab: "decode [0x61, 0x62] = Some [0x61, 0x62]"
  by (simp add: decode.simps)

text \<open>
  C10. For every buffer that satisfies the invariant (one whose capacity exceeds its length is produced by the
  construction from a text with a multi-byte sequence) and every call of \<^verbatim>\<open>set_str\<close> with a
  well-formed text, an offset in range and a positive repeat count, whose required extent
  is above the length and at most the capacity: the call returns, it does not reallocate
  (the block and the pointer of the userdata stay), the capacity is unchanged, and the length
  is the required extent.
\<close>

theorem Cset_str_into_slack:
  assumes inv: "chstr_inv cs" and o: "0 < o1" "o1 \<le> int (len cs)" and rp: "0 < optint r 1"
    and g: "grants E (Codes (length s))" and d: "decode s = Some codes" and ne: "s \<noteq> []"
    and lo: "int (length s) \<le> INT_MAX"
    and rq: "required = nat (o1 - 1) + length codes * nat (optint r 1)"
    and grows: "len cs < required" and fits: "required \<le> size_cs cs"
  shows "\<exists>cs'. Cset_str E cs o1 s a r = Updated cs' \<and> grow E cs required = cs \<and>
           size_cs cs' = size_cs cs \<and> len cs' = required \<and>
           (\<forall>h p q. h p = Some cs \<longrightarrow>
              write_at E h p q (SetStr o1 s a r) = Inr (h(p \<mapsto> cs'), p, None))"
proof -
  let ?cs' = "set_str_result E cs (nat (o1 - 1)) codes (optint a (A_NORMAL E)) (nat (optint r 1))"
  have m: "length codes * nat (optint r 1) + nat (o1 - 1) = required"
    using rq by (simp add: add.commute)
  from inv have le: "len cs \<le> size_cs cs" and sm: "int (size_cs cs) \<le> INT_MAX"
    by (simp_all add: chstr_inv_def)
  have "int required \<le> INT_MAX" using fits sm by simp
  moreover have "int required = int (length codes) * optint r 1 + (o1 - 1)"
    using o rp unfolding rq by simp
  ultimately have ov: "int (length codes) * optint r 1 + (o1 - 1) \<le> INT_MAX" by simp
  have u: "Cset_str E cs o1 s a r = Updated ?cs'"
    by (rule Cset_str_UpdatedI [OF inv o rp g d ne ov lo]) (simp add: m fits)
  have f: "size_cs ?cs' = size_cs cs" "len ?cs' = required"
    using set_str_result_fields [OF le, of E "nat (o1 - 1)" codes "optint a (A_NORMAL E)" "nat (optint r 1)"]
      grows fits le by (simp_all add: m max_def)
  have gr: "grow E cs required = cs" using fits by (simp add: grow_def)
  have "write_at E h p q (SetStr o1 s a r) = Inr (h(p \<mapsto> ?cs'), p, None)"
    if "h p = Some cs" for h p q
    using that u f by (simp add: write_at_def)
  with u f gr show ?thesis by blast
qed

theorem Cset_str_into_slack_witness:
  "chstr_new ncurses [0xC3, 0xA9] 0 = Done e_acute \<and> chstr_inv e_acute \<and>
   len e_acute < 2 \<and> 2 \<le> size_cs e_acute \<and>
   (\<exists>cs'. Cset_str ncurses e_acute 1 [0x61, 0x62] None None = Updated cs' \<and>
      size_cs cs' = 2 \<and> len cs' = 2 \<and>
      write_at ncurses [0 \<mapsto> e_acute] 0 1 (SetStr 1 [0x61, 0x62] None None)
        = Inr ([0 \<mapsto> cs'], 0, None))"
proof -
  have f: "len e_acute = 1" "size_cs e_acute = 2" by (simp_all add: e_acute_def)
  have "\<exists>cs'. Cset_str ncurses e_acute 1 [0x61, 0x62] None None = Updated cs' \<and>
           grow ncurses e_acute 2 = e_acute \<and>
           size_cs cs' = size_cs e_acute \<and> len cs' = 2 \<and>
           (\<forall>h p q. h p = Some e_acute \<longrightarrow>
              write_at ncurses h p q (SetStr 1 [0x61, 0x62] None None)
                = Inr (h(p \<mapsto> cs'), p, None))"
    by (rule Cset_str_into_slack [OF e_acute_inv _ _ _ _ decode_ab])
       (simp_all add: f optint_def ncurses_def INT_MAX_def)
  then obtain cs' where u: "Cset_str ncurses e_acute 1 [0x61, 0x62] None None = Updated cs'"
    and s: "size_cs cs' = 2" "len cs' = 2"
    and w: "\<forall>h p q. h p = Some e_acute \<longrightarrow>
              write_at ncurses h p q (SetStr 1 [0x61, 0x62] None None)
                = Inr (h(p \<mapsto> cs'), p, None)"
    by (auto simp: f)
  from w [rule_format, of "[0 \<mapsto> e_acute]" 0 1]
  have "write_at ncurses [0 \<mapsto> e_acute] 0 1 (SetStr 1 [0x61, 0x62] None None)
        = Inr ([0 \<mapsto> cs'], 0, None)"
    by simp
  with u s show ?thesis using chstr_new_e_acute e_acute_inv f by auto
qed

section \<open>Writes within the length\<close>

lemma Cset_ch_Updated:
  assumes inv: "chstr_inv cs" and o: "0 < o1" "o1 \<le> int (len cs)"
    and rp: "0 < optint r 1" "optint r 1 \<le> int (len cs) - o1 + 1"
  shows "Cset_ch cs o1 ch a r =
           Updated (cs\<lparr>str := set_ch_loop (nat (optint r 1)) a ch (nat (o1 - 1)) (str cs)\<rparr>)"
proof -
  from inv have ti: "to_int (len cs) = int (len cs)" and ls: "length (str cs) = size_cs cs"
    and le: "len cs \<le> size_cs cs"
    by (simp_all add: chstr_inv_def to_int_def)
  have "nat (o1 - 1) + nat (optint r 1) \<le> len cs" using o rp by linarith
  with le ls have "\<not> length (str cs) < nat (o1 - 1) + nat (optint r 1)" by simp
  with o rp ti show ?thesis by (simp add: Cset_ch_def Let_def)
qed

lemma Cset_ch_cases:
  assumes inv: "chstr_inv cs"
  shows "Cset_ch cs o1 ch a r =
     (if 0 < o1 \<and> o1 \<le> int (len cs) \<and> 0 < optint r 1 \<and> optint r 1 \<le> int (len cs) - o1 + 1
      then Updated (cs\<lparr>str := set_ch_loop (nat (optint r 1)) a ch (nat (o1 - 1)) (str cs)\<rparr>)
      else Failed OutOfRange cs)"
proof (cases "0 < o1 \<and> o1 \<le> int (len cs) \<and> 0 < optint r 1 \<and> optint r 1 \<le> int (len cs) - o1 + 1")
  case True
  then show ?thesis using Cset_ch_Updated [OF inv, of o1 r ch a] by simp
next
  case False
  from inv have ti: "to_int (len cs) = int (len cs)" by (simp add: chstr_inv_def to_int_def)
  from False ti show ?thesis by (auto simp: Cset_ch_def Let_def)
qed

text \<open>
  C5. For every buffer that satisfies the invariant, every offset \<open>o\<close> with \<open>1 \<le> o \<le> length\<close>, every codepoint
  and every attribute: \<^verbatim>\<open>set_ch\<close> at \<open>o\<close> returns, and \<^verbatim>\<open>get\<close> at \<open>o\<close> then returns the
  codepoint, the attribute under the style mask and the attribute under the colour mask.
\<close>

theorem set_ch_then_get:
  assumes "chstr_inv cs" and "1 \<le> o1" and "o1 \<le> int (len cs)"
  shows "\<exists>cs'. Cset_ch cs o1 ch (Some at) None = Updated cs' \<and>
           Cget E cs' o1 = Done (ch, at AND A_ATTRIBUTES E, at AND A_COLOR E)"
proof -
  let ?cs' = "cs\<lparr>str := set_ch_loop (nat (optint None (1::int))) (Some at) ch (nat (o1 - 1)) (str cs)\<rparr>"
  from assms have u: "Cset_ch cs o1 ch (Some at) None = Updated ?cs'"
    by (intro Cset_ch_Updated) (simp_all add: optint_def)
  from assms(1) have ti: "to_int (len cs) = int (len cs)" and ls: "length (str cs) = size_cs cs"
    and le: "len cs \<le> size_cs cs"
    by (simp_all add: chstr_inv_def to_int_def)
  have j: "nat (o1 - 1) < length (str cs)" "nat (o1 - 1) + 1 \<le> length (str cs)"
    using assms(2,3) le ls by simp_all
  have "set_ch_loop 1 (Some at) ch (nat (o1 - 1)) (str cs) ! nat (o1 - 1)
          = put_ch (Some at) ch (str cs ! nat (o1 - 1))"
    using nth_set_ch_loop [OF j(2) j(1), of "Some at" ch] by simp
  then have "Cget E ?cs' o1 = Done (ch, at AND A_ATTRIBUTES E, at AND A_COLOR E)"
    using assms(2,3) ti j
    by (simp add: Cget_def length_set_ch_loop optint_def put_ch_def Let_def)
  with u show ?thesis by blast
qed

theorem set_ch_then_get_witness:
  "chstr_inv ten_blanks \<and> (1::int) \<le> 4 \<and> 4 \<le> int (len ten_blanks) \<and>
   (\<exists>cs'. Cset_ch ten_blanks 4 0x98CE (Some 0x200100) None = Updated cs' \<and>
      Cget ncurses cs' 4 = Done (0x98CE, 0x200100, 0x100))"
proof -
  have "4 \<le> int (len ten_blanks)" by (simp add: ten_blanks_def)
  with set_ch_then_get [OF ten_blanks_inv, of 4 "0x98CE" "0x200100" ncurses]
  show ?thesis using ten_blanks_inv by (simp add: ncurses_def)
qed

text \<open>
  C8. For every buffer that satisfies the invariant, \<^verbatim>\<open>set_ch\<close> fails with \<open>OutOfRange\<close> whenever the offset
  is outside \<open>[1, length]\<close> or the repeat count is outside \<open>[1, length - offset + 1]\<close>, and
  the buffer is then as it was. In every other case the call returns: length and capacity
  are unchanged, nothing is reallocated (the block and the pointer of the userdata stay),
  the cells \<open>offset, ..., offset + repeat - 1\<close> hold the codepoint of the call, with the
  attribute of the call when one was given and with their own attribute when none was, and
  every other cell is unchanged.
\<close>

theorem Cset_ch_bounded:
  assumes "chstr_inv cs"
  shows "((o1 < 1 \<or> int (len cs) < o1 \<or> optint r 1 < 1 \<or> int (len cs) - o1 + 1 < optint r 1)
            \<longrightarrow> Cset_ch cs o1 ch a r = Failed OutOfRange cs)
       \<and> (1 \<le> o1 \<and> o1 \<le> int (len cs) \<and> 1 \<le> optint r 1 \<and> optint r 1 \<le> int (len cs) - o1 + 1
            \<longrightarrow> (\<exists>cs'. Cset_ch cs o1 ch a r = Updated cs' \<and>
                  len cs' = len cs \<and> size_cs cs' = size_cs cs \<and>
                  length (str cs') = length (str cs) \<and>
                  (\<forall>h p q. h p = Some cs \<longrightarrow>
                     write_at E h p q (SetCh o1 ch a r) = Inr (h(p \<mapsto> cs'), p, None)) \<and>
                  (\<forall>j < length (str cs).
                     if nat (o1 - 1) \<le> j \<and> j < nat (o1 - 1) + nat (optint r 1)
                     then chars0 (str cs' ! j) = ch \<and>
                          attr (str cs' ! j) = (case a of None \<Rightarrow> attr (str cs ! j) | Some x \<Rightarrow> x)
                     else str cs' ! j = str cs ! j)))"
proof (intro conjI impI)
  assume "o1 < 1 \<or> int (len cs) < o1 \<or> optint r 1 < 1 \<or> int (len cs) - o1 + 1 < optint r 1"
  then show "Cset_ch cs o1 ch a r = Failed OutOfRange cs"
    by (auto simp: Cset_ch_cases [OF assms])
next
  assume ok: "1 \<le> o1 \<and> o1 \<le> int (len cs) \<and> 1 \<le> optint r 1 \<and> optint r 1 \<le> int (len cs) - o1 + 1"
  let ?p = "nat (o1 - 1)" and ?n = "nat (optint r 1)"
  let ?cs' = "cs\<lparr>str := set_ch_loop ?n a ch ?p (str cs)\<rparr>"
  from ok have u: "Cset_ch cs o1 ch a r = Updated ?cs'"
    by (simp add: Cset_ch_cases [OF assms])
  from assms have ls: "length (str cs) = size_cs cs" and le: "len cs \<le> size_cs cs"
    by (simp_all add: chstr_inv_def)
  have fit: "?p + ?n \<le> length (str cs)" using ok le ls by linarith
  have w: "\<forall>h p q. h p = Some cs \<longrightarrow>
             write_at E h p q (SetCh o1 ch a r) = Inr (h(p \<mapsto> ?cs'), p, None)"
    using u by (simp add: write_at_def)
  have c: "\<forall>j < length (str cs).
             if ?p \<le> j \<and> j < ?p + ?n
             then chars0 (str ?cs' ! j) = ch \<and>
                  attr (str ?cs' ! j) = (case a of None \<Rightarrow> attr (str cs ! j) | Some x \<Rightarrow> x)
             else str ?cs' ! j = str cs ! j"
  proof (intro allI impI)
    fix j assume "j < length (str cs)"
    from nth_set_ch_loop [OF fit this, of a ch]
    show "if ?p \<le> j \<and> j < ?p + ?n
           then chars0 (str ?cs' ! j) = ch \<and>
                attr (str ?cs' ! j) = (case a of None \<Rightarrow> attr (str cs ! j) | Some x \<Rightarrow> x)
           else str ?cs' ! j = str cs ! j"
      by (simp add: put_ch_def split: option.splits)
  qed
  have f: "len ?cs' = len cs" "size_cs ?cs' = size_cs cs" "length (str ?cs') = length (str cs)"
    by (simp_all add: length_set_ch_loop)
  show "\<exists>cs'. Cset_ch cs o1 ch a r = Updated cs' \<and>
          len cs' = len cs \<and> size_cs cs' = size_cs cs \<and>
          length (str cs') = length (str cs) \<and>
          (\<forall>h p q. h p = Some cs \<longrightarrow>
             write_at E h p q (SetCh o1 ch a r) = Inr (h(p \<mapsto> cs'), p, None)) \<and>
          (\<forall>j < length (str cs).
             if nat (o1 - 1) \<le> j \<and> j < nat (o1 - 1) + nat (optint r 1)
             then chars0 (str cs' ! j) = ch \<and>
                  attr (str cs' ! j) = (case a of None \<Rightarrow> attr (str cs ! j) | Some x \<Rightarrow> x)
             else str cs' ! j = str cs ! j)"
    by (intro exI [of _ ?cs'] conjI u f w c)
qed

theorem Cset_ch_bounded_witness:
  "chstr_inv ten_blanks \<and>
   Cset_ch ten_blanks 0 0x41 None None = Failed OutOfRange ten_blanks \<and>
   Cset_ch ten_blanks 3 0x41 None (Some 9) = Failed OutOfRange ten_blanks \<and>
   (\<exists>cs'. Cset_ch ten_blanks 3 0x41 None (Some 8) = Updated cs' \<and>
      len cs' = 10 \<and> size_cs cs' = 10 \<and>
      write_at ncurses [0 \<mapsto> ten_blanks] 0 1 (SetCh 3 0x41 None (Some 8))
        = Inr ([0 \<mapsto> cs'], 0, None) \<and>
      chars0 (str cs' ! 9) = 0x41 \<and> attr (str cs' ! 9) = A_NORMAL ncurses \<and>
      str cs' ! 1 = blank ncurses)"
proof -
  have f: "len ten_blanks = 10" "size_cs ten_blanks = 10" "length (str ten_blanks) = 10"
    by (simp_all add: ten_blanks_def)
  have a: "Cset_ch ten_blanks 0 0x41 None None = Failed OutOfRange ten_blanks"
    using Cset_ch_bounded [OF ten_blanks_inv, of 0 None "0x41" None ncurses] by simp
  have b: "Cset_ch ten_blanks 3 0x41 None (Some 9) = Failed OutOfRange ten_blanks"
    using Cset_ch_bounded [OF ten_blanks_inv, of 3 "Some 9" "0x41" None ncurses]
    by (simp add: f optint_def)
  from Cset_ch_bounded [OF ten_blanks_inv, of 3 "Some 8" "0x41" None ncurses]
  obtain cs' where u: "Cset_ch ten_blanks 3 0x41 None (Some 8) = Updated cs'"
    and l: "len cs' = 10" "size_cs cs' = 10"
    and w: "\<forall>h p q. h p = Some ten_blanks \<longrightarrow>
              write_at ncurses h p q (SetCh 3 0x41 None (Some 8)) = Inr (h(p \<mapsto> cs'), p, None)"
    and c: "\<forall>j < 10.
              if 2 \<le> j \<and> j < 10
              then chars0 (str cs' ! j) = 0x41 \<and> attr (str cs' ! j) = attr (str ten_blanks ! j)
              else str cs' ! j = str ten_blanks ! j"
    by (auto simp: f optint_def)
  from w [rule_format, of "[0 \<mapsto> ten_blanks]" 0 1]
  have w': "write_at ncurses [0 \<mapsto> ten_blanks] 0 1 (SetCh 3 0x41 None (Some 8))
        = Inr ([0 \<mapsto> cs'], 0, None)"
    by simp
  from c [rule_format, of 9]
  have c9: "chars0 (str cs' ! 9) = 0x41 \<and> attr (str cs' ! 9) = A_NORMAL ncurses"
    by (simp add: ten_blanks_def blank_def)
  from c [rule_format, of 1] have c1: "str cs' ! 1 = blank ncurses"
    by (simp add: ten_blanks_def)
  show ?thesis using ten_blanks_inv a b u l w' c9 c1 by auto
qed

section \<open>Construction from a text\<close>

lemma decode_hi: "decode hi_text = Some [0x68, 0x69, 0x2C, 0x4E16, 0x754C]"
  unfolding hi_text_def by (simp add: decode.simps cont_def low6_def)

lemma chstr_new_Done:
  assumes "s \<noteq> []" "int (length s) \<le> INT_MAX" "decode s = Some codes" "grants E (Cells (length s))"
  shows "chstr_new E s a =
           Done \<lparr>len = length codes, size_cs = length s,
                 str = write_codes a codes 0 (malloc_cells E (length s))\<rparr>"
proof -
  have le: "length codes \<le> length s" using assms(3) by (rule decode_length_le)
  with assms(2) have "int (0 + length codes) \<le> INT_MAX" by simp
  from new_loop_Done [OF assms(3) this]
  have "new_loop a s 0 (malloc_cells E (length s))
          = Done (length codes, write_codes a codes 0 (malloc_cells E (length s)))"
    by simp
  moreover from assms(2) have "length s mod 2 ^ 32 = length s"
    by (simp add: INT_MAX_def)
  ultimately show ?thesis using assms(1,4) by (simp add: chstr_new_def)
qed

lemma chstr_new_DoneD:
  assumes "chstr_new E s a = Done cs"
  shows "\<exists>codes. decode s = Some codes \<and> s \<noteq> [] \<and> int (length codes) \<le> INT_MAX \<and>
           cs = \<lparr>len = length codes, size_cs = length s mod 2 ^ 32,
                  str = write_codes a codes 0 (malloc_cells E (length s))\<rparr>"
proof -
  from assms have ne: "s \<noteq> []" by (auto simp: chstr_new_def split: if_splits)
  from assms obtain j cells' where n: "new_loop a s 0 (malloc_cells E (length s)) = Done (j, cells')"
    and c: "cs = \<lparr>len = j, size_cs = length s mod 2 ^ 32, str = cells'\<rparr>"
    by (auto simp: chstr_new_def split: if_splits ret.splits)
  have "int 0 \<le> INT_MAX" by (simp add: INT_MAX_def)
  from new_loop_DoneD [OF n this] c ne show ?thesis by auto
qed

lemma chstr_new_hi: "chstr_new ncurses hi_text 7 = Done hi_buffer"
proof -
  have "hi_text \<noteq> []" "int (length hi_text) \<le> INT_MAX" "grants ncurses (Cells (length hi_text))"
    by (simp_all add: hi_text_def INT_MAX_def ncurses_def)
  from chstr_new_Done [OF this(1,2) decode_hi this(3), of 7]
  show ?thesis
    by (simp add: hi_text_def hi_buffer_def malloc_cells_def cell_def ncurses_def upt_rec)
qed

text \<open>
  C2, as stated, fails: the text "hi," followed by U+4E16 and U+754C has 9 bytes and 5
  codepoints, and the buffer made of it has length 5 and capacity 9, as the documentation
  of \<^verbatim>\<open>Csize\<close> says (lines 261-264).
\<close>

theorem chstr_new_capacity_counterexample:
  "decode hi_text = Some [0x68, 0x69, 0x2C, 0x4E16, 0x754C] \<and>
   chstr_new ncurses hi_text 7 = Done hi_buffer \<and>
   Clen hi_buffer = 5 \<and> Csize hi_buffer = 9 \<and>
   Csize hi_buffer \<noteq> length [0x68 :: nat, 0x69, 0x2C, 0x4E16, 0x754C] \<and>
   Clen hi_buffer \<noteq> Csize hi_buffer"
  using decode_hi chstr_new_hi by (simp add: hi_buffer_def Clen_def Csize_def)

text \<open>
  C2, amended. For every non-empty well-formed text of at most \<^verbatim>\<open>INT_MAX\<close> bytes and every
  attribute, the construction from the text returns, when the allocator grants the block, a
  buffer whose length is the number of decoded codepoints and whose capacity is the
  number of bytes of the text; so the length is at most the capacity. Every cell below the
  length holds the attribute of the call and the codepoint decoded at its position.
\<close>

theorem chstr_new_length_capacity:
  assumes "s \<noteq> []" and "int (length s) \<le> INT_MAX" and "decode s = Some codes"
    and "grants E (Cells (length s))"
  shows "\<exists>cs. chstr_new E s a = Done cs \<and> len cs = length codes \<and> size_cs cs = length s \<and>
           len cs \<le> size_cs cs \<and>
           (\<forall>i < len cs. attr (str cs ! i) = a \<and> chars0 (str cs ! i) = of_nat (codes ! i))"
proof -
  let ?cells = "malloc_cells E (length s)"
  let ?cs = "\<lparr>len = length codes, size_cs = length s, str = write_codes a codes 0 ?cells\<rparr>"
  have le: "length codes \<le> length s" using assms(3) by (rule decode_length_le)
  have fit: "0 + length codes \<le> length ?cells" using le by (simp add: length_malloc_cells)
  have c: "write_codes a codes 0 ?cells ! i = cell a (codes ! i)" if "i < length codes" for i
  proof -
    from that le have "i < length ?cells" by (simp add: length_malloc_cells)
    from nth_write_codes [OF fit this, of a] that show ?thesis by simp
  qed
  have "chstr_new E s a = Done ?cs" using assms by (rule chstr_new_Done)
  with le c show ?thesis by (simp add: cell_def)
qed

theorem chstr_new_length_capacity_witness:
  "hi_text \<noteq> [] \<and> int (length hi_text) \<le> INT_MAX \<and>
   decode hi_text = Some [0x68, 0x69, 0x2C, 0x4E16, 0x754C] \<and>
   grants ncurses (Cells (length hi_text)) \<and>
   (\<exists>cs. chstr_new ncurses hi_text 7 = Done cs \<and> len cs = 5 \<and> size_cs cs = 9 \<and>
      (3::nat) < len cs \<and> attr (str cs ! 3) = 7 \<and> chars0 (str cs ! 3) = 0x4E16)"
proof -
  have h: "hi_text \<noteq> []" "int (length hi_text) \<le> INT_MAX" "grants ncurses (Cells (length hi_text))"
    by (simp_all add: hi_text_def INT_MAX_def ncurses_def)
  from chstr_new_length_capacity [OF h(1,2) decode_hi h(3), of 7]
  obtain cs where c: "chstr_new ncurses hi_text 7 = Done cs"
    and l: "len cs = length [0x68 :: nat, 0x69, 0x2C, 0x4E16, 0x754C]" "size_cs cs = length hi_text"
    and a: "\<forall>i < len cs. attr (str cs ! i) = 7 \<and>
              chars0 (str cs ! i) = of_nat ([0x68, 0x69, 0x2C, 0x4E16, 0x754C] ! i)"
    by blast
  from l have l': "len cs = 5" "size_cs cs = 9" by (simp_all add: hi_text_def)
  from a [rule_format, of 3] l' have "attr (str cs ! 3) = 7 \<and> chars0 (str cs ! 3) = 0x4E16"
    by simp
  with c l' h decode_hi show ?thesis by auto
qed

section \<open>The invariant\<close>

lemma chstr_new_inv:
  assumes "chstr_new E s a = Done cs" and "int (length s) \<le> INT_MAX"
  shows "chstr_inv cs"
proof -
  from chstr_new_DoneD [OF assms(1)] obtain codes where d: "decode s = Some codes" and ne: "s \<noteq> []"
    and e: "cs = \<lparr>len = length codes, size_cs = length s mod 2 ^ 32,
                   str = write_codes a codes 0 (malloc_cells E (length s))\<rparr>"
    by blast
  from decode_nonempty [OF d ne] have "1 \<le> length codes" by (cases codes) simp_all
  moreover have "length codes \<le> length s" using d by (rule decode_length_le)
  moreover from assms(2) have "length s mod 2 ^ 32 = length s" by (simp add: INT_MAX_def)
  ultimately show ?thesis
    using assms(2) by (simp add: e chstr_inv_def length_write_codes length_malloc_cells)
qed

lemma chstr_new_by_size_inv:
  assumes "chstr_new_by_size E n = Done cs" and "int n \<le> INT_MAX"
  shows "chstr_inv cs"
proof -
  from assms(1) have "0 < n"
    and "cs = \<lparr>len = n, size_cs = n, str = fill_blank E 0 n (malloc_cells E n)\<rparr>"
    by (simp_all add: chstr_new_by_size_def split: if_splits)
  with assms(2) show ?thesis
    by (simp add: chstr_inv_def fill_blank_eq length_malloc_cells)
qed

lemma Cset_ch_inv:
  assumes "chstr_inv cs"
  shows "Cset_ch cs o1 ch a r = Updated cs' \<Longrightarrow> chstr_inv cs'"
    and "Cset_ch cs o1 ch a r = Failed e cs' \<Longrightarrow> cs' = cs"
  using assms
  by (auto simp: Cset_ch_cases [OF assms] chstr_inv_def length_set_ch_loop split: if_splits)

lemma Cset_str_Failed: "Cset_str E cs o1 s a r = Failed e cs' \<Longrightarrow> cs' = cs"
  by (auto simp: Cset_str_def Let_def split: if_splits sum.splits)

lemma Cset_str_inv:
  assumes "chstr_inv cs" and "Cset_str E cs o1 s a r = Updated cs'"
  shows "chstr_inv cs'"
proof -
  let ?p = "nat (o1 - 1)" and ?n = "nat (optint r 1)" and ?at = "optint a (A_NORMAL E)"
  from Cset_str_UpdatedD [OF assms] obtain c where o: "0 < o1" and rp: "0 < optint r 1"
    and ov: "int (length c) * optint r 1 + (o1 - 1) \<le> INT_MAX"
    and e: "cs' = set_str_result E cs ?p c ?at ?n"
    by blast
  from assms(1) have i: "1 \<le> len cs" "len cs \<le> size_cs cs" "int (size_cs cs) \<le> INT_MAX"
    "length (str cs) = size_cs cs"
    by (simp_all add: chstr_inv_def)
  have m: "int (length c * ?n + ?p) = int (length c) * optint r 1 + (o1 - 1)"
    using o rp by simp
  have f: "size_cs cs' = max (size_cs cs) (length c * ?n + ?p)"
    "len cs' = max (len cs) (length c * ?n + ?p)"
    unfolding e by (rule set_str_result_fields [OF i(2)])+
  have "length (str cs') = max (size_cs cs) (length c * ?n + ?p)"
    unfolding e set_str_result_str [OF i(4)] length_write_rep
    using i(4) by (simp add: realloc_cells_def)
  moreover have "int (max (size_cs cs) (length c * ?n + ?p)) \<le> INT_MAX"
    using i(3) ov m by (simp add: max_def)
  ultimately show ?thesis using f i by (auto simp: chstr_inv_def max_def)
qed

lemma Cdup_Done:
  assumes "chstr_inv cs" and "grants E (Cells (len cs))"
  shows "Cdup E cs = Done \<lparr>len = len cs, size_cs = len cs, str = take (len cs) (str cs)\<rparr>"
  using assms by (simp add: Cdup_def chstr_inv_def Let_def)

lemma Cdup_inv:
  assumes "chstr_inv cs" and "Cdup E cs = Done d"
  shows "chstr_inv d"
  using assms by (auto simp: Cdup_def chstr_inv_def Let_def split: if_splits)

text \<open>
  So the invariant holds of every buffer made by size, or from a text of at most
  \<^verbatim>\<open>INT_MAX\<close> bytes, and of what the writing calls and \<^verbatim>\<open>dup\<close> make of such a buffer. A longer
  text can break it: line 55 stores the byte length, a \<^verbatim>\<open>size_t\<close>, in the \<^verbatim>\<open>unsigned int\<close>
  \<^verbatim>\<open>size\<close>.
\<close>

lemma length_concat_replicate: "length (concat (replicate n xs)) = n * length xs"
  by (induction n) simp_all

lemma utf8_decode_smiley: "utf8_decode (smiley @ s) = Some (0x1F600, s)"
  by (simp add: smiley_def cont_def low6_def)

lemma decode_smileys: "decode (concat (replicate n smiley)) = Some (replicate n 0x1F600)"
proof (induction n)
  case 0
  show ?case by (simp add: decode_Nil)
next
  case (Suc n)
  have "smiley @ concat (replicate n smiley) \<noteq> []" by (simp add: smiley_def)
  with Suc utf8_decode_smiley [of "concat (replicate n smiley)"]
  have "decode (smiley @ concat (replicate n smiley)) = Some (0x1F600 # replicate n 0x1F600)"
    by (subst decode.simps) simp
  then show ?case by simp
qed

lemma chstr_new_smileys:
  assumes "0 < n" and "int n \<le> INT_MAX" and "grants E (Cells (4 * n))"
  shows "chstr_new E (concat (replicate n smiley)) a =
           Done \<lparr>len = n, size_cs = (4 * n) mod 2 ^ 32,
                 str = write_codes a (replicate n 0x1F600) 0 (malloc_cells E (4 * n))\<rparr>"
proof -
  let ?s = "concat (replicate n smiley)"
  have l: "length ?s = 4 * n" by (simp add: length_concat_replicate smiley_def)
  from assms(2) have "int (0 + length (replicate n (0x1F600::nat))) \<le> INT_MAX" by simp
  from new_loop_Done [OF decode_smileys this, of a "malloc_cells E (4 * n)"]
  have "new_loop a ?s 0 (malloc_cells E (4 * n)) =
          Done (n, write_codes a (replicate n 0x1F600) 0 (malloc_cells E (4 * n)))"
    by simp
  with assms(1,3) l show ?thesis by (simp add: chstr_new_def)
qed

text \<open>
  C9. The invariants \<open>length \<le> capacity\<close> and \<open>capacity \<ge> 1\<close> do not hold of every buffer
  the constructor returns: from the text of \<open>2 ^ 32\<close> bytes that holds U+1F600
  \<open>2 ^ 30\<close> times, the construction returns a buffer of length \<open>2 ^ 30\<close> and capacity 0.
\<close>

theorem chstr_new_size_wraps:
  "length big_text = 2 ^ 32 \<and>
   create_chstr ncurses (LString big_text) None = Done big_buffer \<and>
   Clen big_buffer = 2 ^ 30 \<and> Csize big_buffer = 0 \<and>
   \<not> Clen big_buffer \<le> Csize big_buffer \<and> \<not> 1 \<le> Csize big_buffer"
proof -
  have g: "0 < giga" "int giga \<le> INT_MAX" "(4 * giga) mod 2 ^ 32 = 0" "4 * giga = 2 ^ 32"
    by (simp_all add: giga_def INT_MAX_def)
  have "grants ncurses (Cells (4 * giga))" by (simp add: ncurses_def)
  from chstr_new_smileys [OF g(1,2) this, of 0]
  have "chstr_new ncurses big_text 0 = Done big_buffer"
    by (simp only: g(3) big_text_def big_buffer_def)
  moreover have "optint None (A_NORMAL ncurses) = 0" by (simp add: optint_def ncurses_def)
  ultimately have c: "create_chstr ncurses (LString big_text) None = Done big_buffer"
    by (simp add: create_chstr_def null_check_def)
  have "length big_text = 4 * giga"
    by (simp add: big_text_def length_concat_replicate smiley_def)
  then have l: "length big_text = 2 ^ 32" by (simp only: g(4))
  have "Clen big_buffer = giga" "Csize big_buffer = 0"
    by (simp_all add: Clen_def Csize_def big_buffer_def)
  then have f: "Clen big_buffer = 2 ^ 30" "Csize big_buffer = 0"
    by (simp_all only: giga_def)
  from f have "\<not> Clen big_buffer \<le> Csize big_buffer" "\<not> 1 \<le> Csize big_buffer"
    by simp_all
  with l c f show ?thesis by (intro conjI)
qed

section \<open>Duplication\<close>

lemma write_at_frame:
  assumes "write_at E h p r w = Inr (h', p', e)" and "r = p \<or> h r = None"
    and "x \<noteq> p" and "h x \<noteq> None"
  shows "h' x = h x \<and> x \<noteq> p' \<and> h' p' \<noteq> None"
  using assms
  by (auto simp: write_at_def split: option.splits upd.splits if_splits)

lemma writes_at_frame:
  "writes_at E h p ws = Some (h', p') \<Longrightarrow> x \<noteq> p \<Longrightarrow> h x \<noteq> None \<Longrightarrow>
   h' x = h x \<and> x \<noteq> p'"
proof (induction ws arbitrary: h p)
  case Nil
  then show ?case by simp
next
  case (Cons a ws)
  obtain w r where a: "a = (w, r)" by (cases a)
  from Cons.prems(1) a have c: "r = p \<or> h r = None"
    by (auto split: if_splits)
  from Cons.prems(1) a c obtain h1 p1 e where s: "write_at E h p r w = Inr (h1, p1, e)"
    and t: "writes_at E h1 p1 ws = Some (h', p')"
    by (auto split: if_splits sum.splits)
  from write_at_frame [OF s c Cons.prems(2,3)]
  have f: "h1 x = h x" "x \<noteq> p1" by simp_all
  with Cons.prems(3) have "h1 x \<noteq> None" by simp
  from Cons.IH [OF t f(2) this] f(1) show ?case by simp
qed

text \<open>
  C7. For every buffer that satisfies the invariant, \<^verbatim>\<open>dup\<close> returns, when the allocator grants the block, a buffer
  with the length of the source, a capacity equal to that length (whatever the capacity of
  the source), and the cells of the source at every position below the length. The
  duplicate is a block of its own: in a heap where the source is at \<open>p\<close> and the new block
  at \<open>q\<close>, the source is untouched by \<^verbatim>\<open>dup\<close>, any sequence of writing calls on the
  duplicate leaves the source as it was, and any sequence of writing calls on the source
  leaves the duplicate as it was.
\<close>

theorem Cdup_independent:
  assumes "chstr_inv cs" and "grants E (Cells (len cs))"
  shows "\<exists>d. Cdup E cs = Done d \<and> len d = len cs \<and> size_cs d = len cs \<and>
           (\<forall>i < len cs. str d ! i = str cs ! i) \<and>
           (\<forall>h p q. h p = Some cs \<and> h q = None \<longrightarrow>
              dup_at E h p q = Done (h(q \<mapsto> d), q) \<and> (h(q \<mapsto> d)) p = Some cs \<and>
              (\<forall>ws h' q'. writes_at E (h(q \<mapsto> d)) q ws = Some (h', q') \<longrightarrow> h' p = Some cs) \<and>
              (\<forall>ws h' p'. writes_at E (h(q \<mapsto> d)) p ws = Some (h', p') \<longrightarrow> h' q = Some d))"
proof -
  let ?d = "\<lparr>len = len cs, size_cs = len cs, str = take (len cs) (str cs)\<rparr>"
  have d: "Cdup E cs = Done ?d" using assms by (rule Cdup_Done)
  have heap: "dup_at E h p q = Done (h(q \<mapsto> ?d), q) \<and> (h(q \<mapsto> ?d)) p = Some cs \<and>
      (\<forall>ws h' q'. writes_at E (h(q \<mapsto> ?d)) q ws = Some (h', q') \<longrightarrow> h' p = Some cs) \<and>
      (\<forall>ws h' p'. writes_at E (h(q \<mapsto> ?d)) p ws = Some (h', p') \<longrightarrow> h' q = Some ?d)"
    if "h p = Some cs \<and> h q = None" for h p q
  proof -
    from that have pq: "p \<noteq> q" and hp: "h p = Some cs" by auto
    let ?h = "h(q \<mapsto> ?d)"
    have l: "?h p \<noteq> None" "?h q \<noteq> None" using hp by auto
    have "h' p = Some cs" if "writes_at E ?h q ws = Some (h', q')" for ws h' q'
      using writes_at_frame [OF that pq l(1)] hp pq by simp
    moreover have "h' q = Some ?d" if "writes_at E ?h p ws = Some (h', p')" for ws h' p'
      using writes_at_frame [OF that pq [symmetric] l(2)] by simp
    ultimately show ?thesis using hp pq d by (simp add: dup_at_def)
  qed
  show ?thesis
    by (rule exI [of _ ?d]) (use d heap in simp)
qed

theorem Cdup_independent_witness:
  "chstr_inv hi_buffer \<and> grants ncurses (Cells (len hi_buffer)) \<and>
   size_cs hi_buffer = 9 \<and>
   (\<exists>d. Cdup ncurses hi_buffer = Done d \<and> len d = 5 \<and> size_cs d = 5 \<and>
      (4::nat) < len hi_buffer \<and> str d ! 4 = \<lparr>attr = 7, chars0 = 0x754C, chars1 = 0\<rparr> \<and>
      [(0::addr) \<mapsto> hi_buffer] 0 = Some hi_buffer \<and> [(0::addr) \<mapsto> hi_buffer] 1 = None \<and>
      dup_at ncurses [0 \<mapsto> hi_buffer] 0 1 = Done ([0 \<mapsto> hi_buffer, 1 \<mapsto> d], 1) \<and>
      (\<exists>h' q'. writes_at ncurses [0 \<mapsto> hi_buffer, 1 \<mapsto> d] 1
                   [(SetCh 1 0x41 None None, 1)] = Some (h', q') \<and>
               h' 0 = Some hi_buffer) \<and>
      (\<exists>h' p'. writes_at ncurses [0 \<mapsto> hi_buffer, 1 \<mapsto> d] 0
                   [(SetStr 5 [0x61, 0x62] None (Some 3), 2)] = Some (h', p') \<and>
               p' = 2 \<and> h' 1 = Some d))"
proof -
  let ?D = "\<lparr>len = len hi_buffer, size_cs = len hi_buffer, str = take (len hi_buffer) (str hi_buffer)\<rparr>"
  let ?S = "set_str_result ncurses hi_buffer 4 [0x61, 0x62] 0 3"
  have inv: "chstr_inv hi_buffer"
    using chstr_new_hi by (rule chstr_new_inv) (simp add: hi_text_def INT_MAX_def)
  have g: "grants ncurses (Cells (len hi_buffer))" by (simp add: ncurses_def)
  have f: "len hi_buffer = 5" "size_cs hi_buffer = 9" by (simp_all add: hi_buffer_def)
  have D: "Cdup ncurses hi_buffer = Done ?D" using inv g by (rule Cdup_Done)
  then have invD: "chstr_inv ?D" by (rule Cdup_inv [OF inv])
  have wd: "Cset_ch ?D 1 0x41 None None =
              Updated (?D\<lparr>str := set_ch_loop (nat (optint None 1)) None 0x41 (nat (1 - 1)) (str ?D)\<rparr>)"
    by (rule Cset_ch_Updated [OF invD]) (simp_all add: f optint_def)
  have "Cset_str ncurses hi_buffer 5 [0x61, 0x62] None (Some 3) =
          Updated (set_str_result ncurses hi_buffer (nat (5 - 1)) [0x61, 0x62]
              (optint None (A_NORMAL ncurses)) (nat (optint (Some 3) 1)))"
    by (rule Cset_str_UpdatedI [OF inv _ _ _ _ decode_ab])
       (simp_all add: f optint_def ncurses_def INT_MAX_def)
  then have ws: "Cset_str ncurses hi_buffer 5 [0x61, 0x62] None (Some 3) = Updated ?S"
    by (simp add: optint_def ncurses_def)
  have sS: "size_cs ?S = 10"
    using set_str_result_fields(1) [of hi_buffer ncurses 4 "[0x61, 0x62]" 0 3]
    by (simp add: f)
  from Cdup_independent [OF inv g]
  obtain d where d: "Cdup ncurses hi_buffer = Done d" and l: "len d = len hi_buffer" "size_cs d = len hi_buffer"
    and c: "\<forall>i < len hi_buffer. str d ! i = str hi_buffer ! i"
    and h: "\<forall>h p q. h p = Some hi_buffer \<and> h q = None \<longrightarrow>
              dup_at ncurses h p q = Done (h(q \<mapsto> d), q) \<and> (h(q \<mapsto> d)) p = Some hi_buffer \<and>
              (\<forall>ws h' q'. writes_at ncurses (h(q \<mapsto> d)) q ws = Some (h', q') \<longrightarrow> h' p = Some hi_buffer) \<and>
              (\<forall>ws h' p'. writes_at ncurses (h(q \<mapsto> d)) p ws = Some (h', p') \<longrightarrow> h' q = Some d)"
    by (elim exE conjE) (rule that, assumption+)
  from d D have dD: "d = ?D" by simp
  from c [rule_format, of 4] have c4: "str d ! 4 = \<lparr>attr = 7, chars0 = 0x754C, chars1 = 0\<rparr>"
    by (simp add: hi_buffer_def)
  from h [rule_format, of "[0 \<mapsto> hi_buffer]" 0 1]
  have du: "dup_at ncurses [0 \<mapsto> hi_buffer] 0 1 = Done ([0 \<mapsto> hi_buffer, 1 \<mapsto> d], 1)"
    and fq: "\<forall>ws h' q'. writes_at ncurses [0 \<mapsto> hi_buffer, 1 \<mapsto> d] 1 ws = Some (h', q') \<longrightarrow>
               h' 0 = Some hi_buffer"
    and fp: "\<forall>ws h' p'. writes_at ncurses [0 \<mapsto> hi_buffer, 1 \<mapsto> d] 0 ws = Some (h', p') \<longrightarrow>
               h' 1 = Some d"
    by simp_all
  have "write_at ncurses [0 \<mapsto> hi_buffer, 1 \<mapsto> ?D] 1 1 (SetCh 1 0x41 None None) =
          Inr ([0 \<mapsto> hi_buffer, 1 \<mapsto> ?D, 1 \<mapsto>
                 ?D\<lparr>str := set_ch_loop (nat (optint None 1)) None 0x41 (nat (1 - 1)) (str ?D)\<rparr>], 1, None)"
    unfolding write_at_def by (simp add: wd)
  then obtain h1 where w1: "writes_at ncurses [0 \<mapsto> hi_buffer, 1 \<mapsto> d] 1
                   [(SetCh 1 0x41 None None, 1)] = Some (h1, 1)"
    unfolding dD by simp
  have "write_at ncurses [0 \<mapsto> hi_buffer, 1 \<mapsto> d] 0 2 (SetStr 5 [0x61, 0x62] None (Some 3)) =
          Inr (([0 \<mapsto> hi_buffer, 1 \<mapsto> d](0 := None))(2 \<mapsto> ?S), 2, None)"
    unfolding write_at_def by (simp add: ws sS f)
  then obtain h2 where w2: "writes_at ncurses [0 \<mapsto> hi_buffer, 1 \<mapsto> d] 0
                   [(SetStr 5 [0x61, 0x62] None (Some 3), 2)] = Some (h2, 2)"
    by simp
  from fq [rule_format, OF w1] have r1: "h1 0 = Some hi_buffer" .
  from fp [rule_format, OF w2] have r2: "h2 1 = Some d" .
  have e1: "\<exists>h' q'. writes_at ncurses [0 \<mapsto> hi_buffer, 1 \<mapsto> d] 1
                   [(SetCh 1 0x41 None None, 1)] = Some (h', q') \<and> h' 0 = Some hi_buffer"
    using w1 r1 by blast
  have e2: "\<exists>h' p'. writes_at ncurses [0 \<mapsto> hi_buffer, 1 \<mapsto> d] 0
                   [(SetStr 5 [0x61, 0x62] None (Some 3), 2)] = Some (h', p') \<and>
               p' = 2 \<and> h' 1 = Some d"
    using w2 r2 by blast
  have e3: "len d = 5" "size_cs d = 5" "(4::nat) < len hi_buffer" using l f by simp_all
  have e4: "[(0::addr) \<mapsto> hi_buffer] 0 = Some hi_buffer" "[(0::addr) \<mapsto> hi_buffer] 1 = None"
    by simp_all
  show ?thesis
    by (intro conjI exI [of _ d] inv g f(2) d c4 du e1 e2 e3 e4)
qed

section \<open>Malformed texts\<close>

lemma decode_FF: "decode [0xFF] = None"
  by (simp add: decode.simps)

text \<open>
  The constructor answers NULL on a malformed text (line 64, after freeing its block), and
  the binding raises "create wstr failed!".
\<close>

lemma chstr_new_malformed:
  assumes "decode s = None" and "int (length s) \<le> INT_MAX" and "grants E (Cells (length s))"
  shows "chstr_new E s a = Raised InvalidEncoding"
    and "create_chstr E (LString s) b = Raised CreateFailed"
proof -
  from assms(1) have "s \<noteq> []" by (auto simp: decode_Nil)
  moreover from assms(2) have "int (0 + length s) \<le> INT_MAX" by simp
  ultimately show "chstr_new E s a = Raised InvalidEncoding" for a
    using assms(3) new_loop_malformed [OF assms(1), of 0 a "malloc_cells E (length s)"]
    by (simp add: chstr_new_def)
  then show "create_chstr E (LString s) b = Raised CreateFailed"
    by (simp add: create_chstr_def null_check_def)
qed

text \<open>
  In \<^verbatim>\<open>Cset_str\<close> the error "bad utf8 byte sequence" (line 124) comes after the \<^verbatim>\<open>free\<close> of
  line 123, and there \<^verbatim>\<open>code_array\<close> has been advanced at least once: on a malformed text,
  a call that has passed the checks of the index and of the repeat count frees a pointer
  that \<^verbatim>\<open>malloc\<close> did not return. The normal path takes the pointer back to the start
  (line 133) before line 162 frees it.
\<close>

lemma Cset_str_malformed:
  assumes "chstr_inv cs" and "0 < o1" and "o1 \<le> int (len cs)" and "0 < optint r 1"
    and "grants E (Codes (length s))" and "int (length s) \<le> INT_MAX" and "decode s = None"
  shows "Cset_str E cs o1 s a r = Faulted InvalidFree"
proof -
  from assms(1) have ti: "to_int (len cs) = int (len cs)"
    by (simp add: chstr_inv_def to_int_def)
  from assms(7) obtain k where k: "decode_loop s [] = Inl k"
    using decode_loop_Inl [of s "[]"] by blast
  then have "\<not> free_defined k"
    using decode_loop_Inl_pos [OF k] by (simp add: free_defined_def)
  with assms ti k show ?thesis by (simp add: Cset_str_def Let_def)
qed

lemma Cset_str_never_InvalidEncoding: "Cset_str E cs o1 s a r \<noteq> Failed InvalidEncoding cs'"
proof
  assume f: "Cset_str E cs o1 s a r = Failed InvalidEncoding cs'"
  then obtain k where "decode_loop s [] = Inl k" and "free_defined k"
    by (auto simp: Cset_str_def Let_def split: if_splits sum.splits)
  with decode_loop_Inl_pos [of s "[]" k] show False by (simp add: free_defined_def)
qed

text \<open>
  C3. On a malformed text the construction from the text fails and returns no buffer
  (\<open>chstr_new_malformed\<close>). The half of the claim about \<^verbatim>\<open>set_str\<close> is not what the source
  does: on the buffer of ten blanks, at offset 1, with the text of the one byte \<^verbatim>\<open>0xFF\<close>, the
  call does not end with the error \<open>InvalidEncoding\<close>; it ends in the invalid \<^verbatim>\<open>free\<close> of
  line 123.
\<close>

theorem Cset_str_malformed_invalid_free:
  "decode [0xFF] = None \<and>
   chstr_new ncurses [0xFF] 0 = Raised InvalidEncoding \<and>
   Cset_str ncurses ten_blanks 1 [0xFF] None None = Faulted InvalidFree \<and>
   Cset_str ncurses ten_blanks 1 [0xFF] None None \<noteq> Failed InvalidEncoding ten_blanks"
proof -
  have "chstr_new ncurses [0xFF] 0 = Raised InvalidEncoding"
    by (rule chstr_new_malformed(1) [OF decode_FF]) (simp_all add: INT_MAX_def ncurses_def)
  moreover have "Cset_str ncurses ten_blanks 1 [0xFF] None None = Faulted InvalidFree"
    by (rule Cset_str_malformed [OF ten_blanks_inv _ _ _ _ _ decode_FF])
       (simp_all add: ten_blanks_def optint_def INT_MAX_def ncurses_def)
  ultimately show ?thesis using decode_FF by simp
qed

end
